theory Spec2Isabelle
  imports Complex_Main "HOL-Library.Word"
begin

section \<open>JavaScript numbers\<close>

text \<open>
  A JavaScript number is modelled as a finite value or one of the three special values
  of IEEE 754. The operators \<open>js_add\<close>, \<open>js_mul\<close>, \<open>js_div\<close> and the functions
  \<open>js_sqrt\<close> and \<open>js_log\<close> compute the exact real result; where the rounding of a
  result to a double decides what the program returns (the semitone number of
  \<open>getNoteInfo\<close>), the exact result is passed through \<open>rnd\<close>, which rounds it to 53
  significant bits. The two zeros are
  identified, and a zero divisor is the positive zero, which is the only zero divisor
  this program can produce (\<open>buf.length\<close> and the lag \<open>mp\<close> are non-negative integers).
  Numbers that the program obtains from \<open>Math.round\<close> and \<open>Math.floor\<close> are integral;
  they are kept at type \<open>int number\<close>, all others at \<open>real number\<close>.
\<close>

datatype 'a number = Fin 'a | PInf | NInf | NaN

type_synonym u8 = "8 word"

fun js_neg :: "'a::uminus number \<Rightarrow> 'a number" where
  "js_neg (Fin a) = Fin (- a)"
| "js_neg PInf = NInf"
| "js_neg NInf = PInf"
| "js_neg NaN = NaN"

fun js_add :: "'a::plus number \<Rightarrow> 'a number \<Rightarrow> 'a number" where
  "js_add (Fin a) (Fin b) = Fin (a + b)"
| "js_add NaN y = NaN"
| "js_add x NaN = NaN"
| "js_add PInf NInf = NaN"
| "js_add NInf PInf = NaN"
| "js_add PInf y = PInf"
| "js_add NInf y = NInf"
| "js_add x PInf = PInf"
| "js_add x NInf = NInf"

definition js_sub :: "'a::{plus,uminus} number \<Rightarrow> 'a number \<Rightarrow> 'a number" where
  "js_sub x y = js_add x (js_neg y)"

text \<open>The infinity with the sign of a non-zero finite number.\<close>

definition inf_signed :: "real \<Rightarrow> real number" where
  "inf_signed a = (if a = 0 then NaN else if 0 < a then PInf else NInf)"

fun js_mul :: "real number \<Rightarrow> real number \<Rightarrow> real number" where
  "js_mul (Fin a) (Fin b) = Fin (a * b)"
| "js_mul NaN y = NaN"
| "js_mul x NaN = NaN"
| "js_mul (Fin a) PInf = inf_signed a"
| "js_mul (Fin a) NInf = inf_signed (- a)"
| "js_mul PInf (Fin b) = inf_signed b"
| "js_mul NInf (Fin b) = inf_signed (- b)"
| "js_mul PInf PInf = PInf"
| "js_mul NInf NInf = PInf"
| "js_mul PInf NInf = NInf"
| "js_mul NInf PInf = NInf"

fun js_div :: "real number \<Rightarrow> real number \<Rightarrow> real number" where
  "js_div (Fin a) (Fin b) = (if b = 0 then inf_signed a else Fin (a / b))"
| "js_div NaN y = NaN"
| "js_div x NaN = NaN"
| "js_div (Fin a) PInf = Fin 0"
| "js_div (Fin a) NInf = Fin 0"
| "js_div PInf (Fin b) = (if 0 \<le> b then PInf else NInf)"
| "js_div NInf (Fin b) = (if 0 \<le> b then NInf else PInf)"
| "js_div PInf y = NaN"
| "js_div NInf y = NaN"

text \<open>\<open>Math.sqrt\<close>, \<open>Math.log10\<close> and \<open>Math.log2\<close>.\<close>

fun js_sqrt :: "real number \<Rightarrow> real number" where
  "js_sqrt (Fin a) = (if a < 0 then NaN else Fin (sqrt a))"
| "js_sqrt PInf = PInf"
| "js_sqrt NInf = NaN"
| "js_sqrt NaN = NaN"

fun js_log :: "real \<Rightarrow> real number \<Rightarrow> real number" where
  "js_log base (Fin a) = (if a < 0 then NaN else if a = 0 then NInf else Fin (log base a))"
| "js_log base PInf = PInf"
| "js_log base NInf = NaN"
| "js_log base NaN = NaN"

definition js_log10 :: "real number \<Rightarrow> real number" where
  "js_log10 = js_log 10"

definition js_log2 :: "real number \<Rightarrow> real number" where
  "js_log2 = js_log 2"

text \<open>
  Rounding to a double: to the nearest multiple of the unit in the last place of the
  53-bit significand, a tie going to the even multiple. \<open>quantum x\<close> is that unit,
  \<open>2 ^ (e - 52)\<close> for \<open>2 ^ e \<le> \<bar>x\<bar> < 2 ^ (e + 1)\<close>. The exponent is not bounded: the
  results that \<open>getNoteInfo\<close> rounds for a double \<open>freq\<close> stay far from both ends of the
  exponent range, where overflow and gradual underflow would set in.
\<close>

definition nearest_even :: "real \<Rightarrow> int" where
  "nearest_even q =
     (let k = \<lfloor>q\<rfloor>
      in if q - of_int k < 1 / 2 then k
         else if 1 / 2 < q - of_int k then k + 1
         else if even k then k else k + 1)"

definition quantum :: "real \<Rightarrow> real" where
  "quantum x = 2 powr (of_int \<lfloor>log 2 \<bar>x\<bar>\<rfloor> - 52)"

definition round_double :: "real \<Rightarrow> real" where
  "round_double x = (if x = 0 then 0 else of_int (nearest_even (x / quantum x)) * quantum x)"

fun rnd :: "real number \<Rightarrow> real number" where
  "rnd (Fin a) = Fin (round_double a)"
| "rnd PInf = PInf"
| "rnd NInf = NInf"
| "rnd NaN = NaN"

text \<open>The relational operators: every comparison with \<open>NaN\<close> is false.\<close>

fun js_lt :: "'a::ord number \<Rightarrow> 'a number \<Rightarrow> bool" where
  "js_lt (Fin a) (Fin b) = (a < b)"
| "js_lt NaN y = False"
| "js_lt x NaN = False"
| "js_lt x NInf = False"
| "js_lt PInf y = False"
| "js_lt NInf y = True"
| "js_lt x PInf = True"

definition js_gt :: "'a::ord number \<Rightarrow> 'a number \<Rightarrow> bool" where
  "js_gt x y = js_lt y x"

fun js_le :: "'a::ord number \<Rightarrow> 'a number \<Rightarrow> bool" where
  "js_le (Fin a) (Fin b) = (a \<le> b)"
| "js_le NaN y = False"
| "js_le x NaN = False"
| "js_le NInf y = True"
| "js_le x PInf = True"
| "js_le PInf y = False"
| "js_le x NInf = False"

text \<open>
  \<open>Math.round\<close> (ties go up) and \<open>Math.floor\<close>; their finite results are integers.
  \<open>map_number of_int\<close> reads such an integer as a number again.
\<close>

fun js_round :: "real number \<Rightarrow> int number" where
  "js_round (Fin a) = Fin \<lfloor>a + 1 / 2\<rfloor>"
| "js_round PInf = PInf"
| "js_round NInf = NInf"
| "js_round NaN = NaN"

fun js_floor :: "real number \<Rightarrow> int number" where
  "js_floor (Fin a) = Fin \<lfloor>a\<rfloor>"
| "js_floor PInf = PInf"
| "js_floor NInf = NInf"
| "js_floor NaN = NaN"

text \<open>The remainder operator \<open>%\<close>: the result has the sign of the dividend.\<close>

fun js_rem :: "int number \<Rightarrow> int number \<Rightarrow> int number" where
  "js_rem (Fin a) (Fin b) = (if b = 0 then NaN else Fin (sgn a * (\<bar>a\<bar> mod \<bar>b\<bar>)))"
| "js_rem NaN y = NaN"
| "js_rem x NaN = NaN"
| "js_rem PInf y = NaN"
| "js_rem NInf y = NaN"
| "js_rem (Fin a) PInf = Fin a"
| "js_rem (Fin a) NInf = Fin a"

text \<open>Truthiness of a number: \<open>!x\<close> holds for \<open>0\<close> and \<open>NaN\<close> only.\<close>

definition js_truthy :: "real number \<Rightarrow> bool" where
  "js_truthy x = (x \<noteq> NaN \<and> x \<noteq> Fin 0)"

text \<open>
  The values a field of the returned object can hold at run time: a string, a number,
  or \<open>undefined\<close>.
\<close>

datatype jsval = JString string | JNumber "real number" | JUndefined

text \<open>
  \<open>Number.prototype.toString\<close> on the integral numbers: the decimal digits, which is
  what JavaScript prints for an integer below \<open>10^21\<close> in magnitude.
\<close>

fun show_nat :: "nat \<Rightarrow> string" where
  "show_nat k = (if k < 10 then [''0123456789'' ! k] else show_nat (k div 10) @ [''0123456789'' ! (k mod 10)])"

definition show_int :: "int \<Rightarrow> string" where
  "show_int k = (if k < 0 then CHR ''-'' # show_nat (nat (- k)) else show_nat (nat k))"

fun js_to_string :: "int number \<Rightarrow> string" where
  "js_to_string (Fin k) = show_int k"
| "js_to_string PInf = ''Infinity''"
| "js_to_string NInf = ''-Infinity''"
| "js_to_string NaN = ''NaN''"

text \<open>
  \<open>xs[i]\<close> on an array of strings with a number as index: an own element for an
  integer within the array, \<open>undefined\<close> for every other number.
\<close>

fun js_index :: "string list \<Rightarrow> int number \<Rightarrow> jsval" where
  "js_index xs (Fin k) = (if 0 \<le> k \<and> k < int (length xs) then JString (xs ! nat k) else JUndefined)"
| "js_index xs PInf = JUndefined"
| "js_index xs NInf = JUndefined"
| "js_index xs NaN = JUndefined"

text \<open>
  The operator \<open>+\<close> with a number on the right: concatenation when the left operand
  is a string; otherwise both operands become numbers, \<open>undefined\<close> becoming \<open>NaN\<close>.
\<close>

fun js_plus :: "jsval \<Rightarrow> int number \<Rightarrow> jsval" where
  "js_plus (JString s) y = JString (s @ js_to_string y)"
| "js_plus (JNumber x) y = JNumber (js_add x (map_number of_int y))"
| "js_plus JUndefined y = JNumber NaN"

section \<open>The pitch estimator\<close>

text \<open>
  A sample of the \<open>Uint8Array\<close>, centred: \<open>(buf[i] - 128) / 128\<close>. It is a multiple of
  \<open>1 / 128\<close>, so the test against \<open>0.2\<close> in the trimming loops has the same outcome in
  exact arithmetic as in doubles.
\<close>

definition val :: "u8 \<Rightarrow> real" where
  "val b = (real (unat b) - 128) / 128"

text \<open>
  The first loop of \<open>autoCorrelate\<close> accumulates the squares of the centred samples.
  Every operand is finite, so the accumulator is kept as a real.
\<close>

definition sum_squares :: "u8 list \<Rightarrow> real" where
  "sum_squares buf = foldl (\<lambda>rms b. rms + val b * val b) 0 buf"

text \<open>\<open>db = 20 * Math.log10(Math.sqrt(rms / buf.length)) + 100\<close>\<close>

definition db_level :: "u8 list \<Rightarrow> real number" where
  "db_level buf =
     js_add (js_mul (Fin 20)
               (js_log10 (js_sqrt (js_div (Fin (sum_squares buf)) (Fin (real (length buf)))))))
            (Fin 100)"

text \<open>
  The two trimming loops. \<open>scan_start buf 0\<close> is the value of \<open>r1\<close> after the first
  loop, \<open>scan_end buf 1\<close> the value of \<open>r2\<close> after the second; the last branch of each
  is the loop running to its bound without a \<open>break\<close>, which leaves the initial value
  (\<open>0\<close> and \<open>buf.length - 1\<close>).
\<close>

function scan_start :: "u8 list \<Rightarrow> nat \<Rightarrow> int" where
  "scan_start buf i =
     (if real i < real (length buf) / 2
      then (if \<bar>val (buf ! i)\<bar> < 0.2 then int i else scan_start buf (i + 1))
      else 0)"
  by pat_completeness auto
termination
  by (relation "measure (\<lambda>(buf, i). length buf - i)") auto

function scan_end :: "u8 list \<Rightarrow> nat \<Rightarrow> int" where
  "scan_end buf i =
     (if real i < real (length buf) / 2
      then (if \<bar>val (buf ! (length buf - i))\<bar> < 0.2 then int (length buf) - int i
            else scan_end buf (i + 1))
      else int (length buf) - 1)"
  by pat_completeness auto
termination
  by (relation "measure (\<lambda>(buf, i). length buf - i)") auto

text \<open>
  \<open>TypedArray.prototype.slice(start, end)\<close>: a negative index counts from the end,
  and both indices are clamped to the array.
\<close>

definition rel_index :: "nat \<Rightarrow> int \<Rightarrow> nat" where
  "rel_index len k = (if k < 0 then nat (max (int len + k) 0) else min (nat k) len)"

definition js_slice :: "'a list \<Rightarrow> int \<Rightarrow> int \<Rightarrow> 'a list" where
  "js_slice xs start end =
     (let k = rel_index (length xs) start; final = rel_index (length xs) end
      in take (final - k) (drop k xs))"

definition trimmed :: "u8 list \<Rightarrow> u8 list" where
  "trimmed buf = js_slice buf (scan_start buf 0) (scan_end buf 1)"

text \<open>
  The autocorrelation array: entry \<open>i\<close> starts at \<open>0\<close> and receives
  \<open>(b2[j] - 128) / 128 * (b2[j + i] - 128) / 128\<close> for \<open>j = 0, ..., sz - i - 1\<close>.
\<close>

definition corr_at :: "u8 list \<Rightarrow> nat \<Rightarrow> real" where
  "corr_at b2 i =
     foldl (\<lambda>acc j. acc + (real (unat (b2 ! j)) - 128) / 128 * (real (unat (b2 ! (j + i))) - 128) / 128)
       0 [0..<length b2 - i]"

definition correlate :: "u8 list \<Rightarrow> real list" where
  "correlate b2 = map (corr_at b2) [0..<length b2]"

text \<open>
  Reading an array of numbers at an index: \<open>None\<close> is \<open>undefined\<close>, the value of a read
  past the end. \<open>undefined\<close> converts to \<open>NaN\<close> in a comparison, which is then false.
\<close>

definition read_at :: "real list \<Rightarrow> nat \<Rightarrow> real option" where
  "read_at c i = (if i < length c then Some (c ! i) else None)"

fun gt_undef :: "real option \<Rightarrow> real option \<Rightarrow> bool" where
  "gt_undef (Some a) (Some b) = (a > b)"
| "gt_undef x y = False"

text \<open>
  \<open>while (c[d] > c[d + 1]) d++\<close>. Nothing in the loop itself bounds \<open>d\<close>, so it is a
  partial function: \<open>None\<close> is the loop running forever.
\<close>

partial_function (option) descend :: "real list \<Rightarrow> nat \<Rightarrow> nat option" where
  "descend c d = (if gt_undef (read_at c d) (read_at c (d + 1)) then descend c (d + 1) else Some d)"

declare descend.simps [code]

text \<open>
  The peak search \<open>for (let i = d; i < sz; i++) if (c[i] > mx) { mx = c[i]; mp = i; }\<close>:
  the state is the pair \<open>(mx, mp)\<close>, started at \<open>(-1, -1)\<close>.
\<close>

definition peak_step :: "real list \<Rightarrow> nat \<Rightarrow> real \<times> int \<Rightarrow> real \<times> int" where
  "peak_step c i s = (if c ! i > fst s then (c ! i, int i) else s)"

definition peak :: "real list \<Rightarrow> nat \<Rightarrow> nat \<Rightarrow> real \<times> int" where
  "peak c d sz = fold (peak_step c) [d..<sz] (-1, -1)"

text \<open>
  \<open>autoCorrelate\<close> itself. The gate is an explicit argument here; a caller that omits it
  gets \<open>30\<close>. \<open>None\<close> is the function not returning.
\<close>

definition autoCorrelate :: "u8 list \<Rightarrow> real number \<Rightarrow> real number \<Rightarrow> real number option" where
  "autoCorrelate buf sampleRate gate =
     (if js_lt (db_level buf) gate then Some (Fin (- 1))
      else
        let b2 = trimmed buf;
            sz = length b2;
            c = correlate b2
        in case descend c 0 of
             None \<Rightarrow> None
           | Some d \<Rightarrow> Some (js_div sampleRate (Fin (real_of_int (snd (peak c d sz))))))"

section \<open>The note mapper\<close>

definition noteNames :: "string list" where
  "noteNames = [''C'', ''C#'', ''D'', ''D#'', ''E'', ''F'', ''F#'', ''G'', ''G#'', ''A'', ''A#'', ''B'']"

definition solfegeNames :: "string list" where
  "solfegeNames = [''Do'', ''Di'', ''Re'', ''Ri'', ''Mi'', ''Fa'', ''Fi'', ''Sol'', ''Si'', ''La'', ''Li'', ''Ti'']"

record NoteInfo =
  "note" :: jsval
  solfege :: jsval
  cents :: "real number"

text \<open>
  The locals of \<open>getNoteInfo\<close>, each as a function of what it is computed from:
  \<open>n = 12 * Math.log2(freq / 440) + 69\<close>, \<open>midi = Math.round(n)\<close>, \<open>diff = n - midi\<close>,
  \<open>idx = midi % 12\<close>, \<open>octave = Math.floor(midi / 12) - 1\<close>.

  \<open>n\<close> is a double, and which double it is decides \<open>midi\<close> at a tie: each of the four
  operations of its line rounds its result. \<open>Math.log2\<close> is taken to return the double
  nearest to the logarithm. The operations after it need no rounding to give what the
  program gives: \<open>Math.round\<close> and \<open>Math.floor\<close> are exact, \<open>n - midi\<close> and the integer
  part of \<open>midi / 12\<close> are the same in doubles, and the product \<open>diff * 100\<close> is the exact
  one up to its last place (and exact at \<open>diff = -0.5\<close>).
\<close>

definition semitone :: "real number \<Rightarrow> real number" where
  "semitone freq =
     rnd (js_add (rnd (js_mul (Fin 12) (rnd (js_log2 (rnd (js_div freq (Fin 440))))))) (Fin 69))"

definition midi_of :: "real number \<Rightarrow> int number" where
  "midi_of n = js_round n"

definition diff_of :: "real number \<Rightarrow> int number \<Rightarrow> real number" where
  "diff_of n midi = js_sub n (map_number of_int midi)"

definition idx_of :: "int number \<Rightarrow> int number" where
  "idx_of midi = js_rem midi (Fin 12)"

definition octave_of :: "int number \<Rightarrow> int number" where
  "octave_of midi = js_sub (js_floor (js_div (map_number of_int midi) (Fin 12))) (Fin 1)"

definition getNoteInfo :: "real number \<Rightarrow> NoteInfo" where
  "getNoteInfo freq =
     (if \<not> js_truthy freq \<or> js_lt freq (Fin 20)
      then \<lparr>note = JString ''--'', solfege = JString ''--'', cents = Fin 0\<rparr>
      else
        let n = semitone freq;
            midi = midi_of n;
            diff = diff_of n midi;
            idx = idx_of midi;
            octave = octave_of midi
        in \<lparr>note = js_plus (js_index noteNames idx) octave,
            solfege = js_index solfegeNames idx,
            cents = js_mul diff (Fin 100)\<rparr>)"

section \<open>The peak lag as the specification describes it\<close>

text \<open>
  These definitions follow the words of the specification, not the code; the estimator
  is compared with them below. \<open>spec_c b lag\<close> is the unnormalized autocorrelation
  \<open>\<Sum>j = 0..n - lag - 1. x[j] * x[j + lag]\<close> of the centred samples of \<open>b\<close>. The array
  \<open>c\<close> has entries for the lags below \<open>n\<close> only, so it decreases strictly from \<open>d\<close> to
  \<open>d + 1\<close> only when \<open>d + 1\<close> is such a lag. \<open>spec_d c n d\<close> says that \<open>d\<close> is the first
  index at which \<open>c\<close> stops decreasing strictly, \<open>spec_mp c n d mp\<close> that \<open>mp\<close> is the
  earliest lag in \<open>[d, n)\<close> that attains the maximum of \<open>c\<close> there.
\<close>

definition spec_c :: "u8 list \<Rightarrow> nat \<Rightarrow> real" where
  "spec_c b lag = (\<Sum>j = 0..<length b - lag. val (b ! j) * val (b ! (j + lag)))"

definition descends_at :: "(nat \<Rightarrow> real) \<Rightarrow> nat \<Rightarrow> nat \<Rightarrow> bool" where
  "descends_at c n d = (d + 1 < n \<and> c d > c (d + 1))"

definition spec_d :: "(nat \<Rightarrow> real) \<Rightarrow> nat \<Rightarrow> nat \<Rightarrow> bool" where
  "spec_d c n d = (\<not> descends_at c n d \<and> (\<forall>k<d. descends_at c n k))"

definition spec_mp :: "(nat \<Rightarrow> real) \<Rightarrow> nat \<Rightarrow> nat \<Rightarrow> nat \<Rightarrow> bool" where
  "spec_mp c n d mp =
     (d \<le> mp \<and> mp < n \<and> (\<forall>k\<in>{d..<n}. c k \<le> c mp) \<and> (\<forall>k\<in>{d..<mp}. c k < c mp))"

section \<open>The loudness gate\<close>

lemma foldl_plus_sum_list: "foldl (\<lambda>acc x. acc + f x) (s::real) xs = s + sum_list (map f xs)"
  by (induction xs arbitrary: s) simp_all

lemma sum_squares_sum_list: "sum_squares buf = (\<Sum>b\<leftarrow>buf. (val b)\<^sup>2)"
  by (simp add: sum_squares_def foldl_plus_sum_list power2_eq_square)

lemma sum_squares_nonneg: "0 \<le> sum_squares buf"
  unfolding sum_squares_sum_list by (rule sum_list_nonneg) auto

text \<open>
  The level of a buffer with at least one sample off centre is the decibel value of its
  root mean square; a buffer of centred samples only has level \<open>-Infinity\<close>, and the
  empty buffer has level \<open>NaN\<close> (\<open>0 / 0\<close>).
\<close>

lemma db_level_nonsilent:
  assumes "buf \<noteq> []" "0 < sum_squares buf"
  shows "db_level buf = Fin (20 * log 10 (sqrt (sum_squares buf / real (length buf))) + 100)"
proof -
  define m where "m = sum_squares buf / real (length buf)"
  have m: "0 < m" using assms by (simp add: m_def)
  have "js_div (Fin (sum_squares buf)) (Fin (real (length buf))) = Fin m"
    using assms by (simp add: m_def)
  moreover have "js_sqrt (Fin m) = Fin (sqrt m)"
    using m by simp
  moreover have "js_log10 (Fin (sqrt m)) = Fin (log 10 (sqrt m))"
    using m by (simp add: js_log10_def)
  ultimately show ?thesis
    by (simp add: db_level_def m_def)
qed

lemma db_level_silent:
  assumes "buf \<noteq> []" "sum_squares buf = 0"
  shows "db_level buf = NInf"
  using assms by (simp add: db_level_def js_log10_def inf_signed_def)

lemma db_level_empty: "db_level [] = NaN"
  by (simp add: db_level_def sum_squares_def js_log10_def inf_signed_def)

text \<open>The gate test on a finite threshold, without the logarithm.\<close>

lemma db_level_lt_iff:
  assumes "buf \<noteq> []" "0 < sum_squares buf"
  shows "js_lt (db_level buf) (Fin g) \<longleftrightarrow>
         sum_squares buf / real (length buf) < 10 powr ((g - 100) / 10)"
proof -
  define m where "m = sum_squares buf / real (length buf)"
  have m: "0 < m" using assms by (simp add: m_def)
  have "log 10 (sqrt m) = log 10 m / 2"
    using m by (simp add: log_def ln_sqrt)
  then have "js_lt (db_level buf) (Fin g) \<longleftrightarrow> log 10 m < (g - 100) / 10"
    using assms by (simp add: db_level_nonsilent m_def [symmetric]) argo
  also have "\<dots> \<longleftrightarrow> m < 10 powr ((g - 100) / 10)"
    using m by (intro log_less_iff) simp_all
  finally show ?thesis by (simp add: m_def)
qed

text \<open>
  C2. The level of a buffer with a sample off centre is \<open>db = 20 * log10(rms) + 100\<close>,
  with \<open>rms\<close> the root of the mean of the squared centred samples. Whenever the level
  compares below the gate, \<open>autoCorrelate\<close> returns \<open>-1\<close>, whatever the sample rate: the
  test is the first branch of the function, so neither the trimming nor the
  autocorrelation contributes to the result.
\<close>

theorem gate_rejects:
  "(buf \<noteq> [] \<and> 0 < sum_squares buf \<longrightarrow>
      db_level buf = Fin (20 * log 10 (sqrt ((\<Sum>b\<leftarrow>buf. (val b)\<^sup>2) / real (length buf))) + 100))
   \<and> (js_lt (db_level buf) gate \<longrightarrow> autoCorrelate buf sampleRate gate = Some (Fin (- 1)))"
proof (intro conjI impI)
  assume "buf \<noteq> [] \<and> 0 < sum_squares buf"
  then show "db_level buf = Fin (20 * log 10 (sqrt ((\<Sum>b\<leftarrow>buf. (val b)\<^sup>2) / real (length buf))) + 100)"
    using db_level_nonsilent [of buf] by (simp only: sum_squares_sum_list) simp
next
  assume "js_lt (db_level buf) gate"
  then show "autoCorrelate buf sampleRate gate = Some (Fin (- 1))"
    by (simp add: autoCorrelate_def)
qed

theorem gate_rejects_witness:
  "db_level [129, 127] = Fin (20 * log 10 (1 / 128) + 100)
   \<and> js_lt (db_level [129, 127]) (Fin 60)
   \<and> autoCorrelate [129, 127] (Fin 44100) (Fin 60) = Some (Fin (- 1))"
proof -
  have quiet: "js_lt (db_level [129, 127]) (Fin 60)"
    by (simp add: db_level_lt_iff sum_squares_def val_def powr_minus)
  have loud: "[129, 127] \<noteq> ([]::u8 list) \<and> 0 < sum_squares [129, 127]"
    by (simp add: sum_squares_def val_def)
  have root: "sqrt ((\<Sum>b\<leftarrow>[129, 127 :: u8]. (val b)\<^sup>2) / real (length [129, 127 :: u8])) = 1 / 128"
    by (simp add: val_def power2_eq_square real_sqrt_divide)
  note t = gate_rejects [of "[129, 127]" "Fin 60" "Fin 44100"]
  from t loud have "db_level [129, 127] = Fin (20 * log 10 (1 / 128) + 100)"
    by (simp only: root) simp
  moreover from t quiet have "autoCorrelate [129, 127] (Fin 44100) (Fin 60) = Some (Fin (- 1))"
    by blast
  ultimately show ?thesis using quiet by (intro conjI)
qed

section \<open>The descent loop\<close>

lemma gt_undef_read_at:
  "gt_undef (read_at c i) (read_at c j) \<longleftrightarrow> i < length c \<and> j < length c \<and> c ! i > c ! j"
  by (simp add: read_at_def)

text \<open>
  The loop halts, at the first index from which the array does not strictly decrease
  to the next entry.
\<close>

lemma descend_halts:
  "\<exists>e. descend c d = Some e \<and> d \<le> e \<and> \<not> gt_undef (read_at c e) (read_at c (e + 1))
       \<and> (\<forall>k. d \<le> k \<and> k < e \<longrightarrow> gt_undef (read_at c k) (read_at c (k + 1)))"
proof (induction "length c - d" arbitrary: d rule: less_induct)
  case less
  show ?case
  proof (cases "gt_undef (read_at c d) (read_at c (d + 1))")
    case False
    then have "descend c d = Some d"
      by (subst descend.simps) simp
    moreover have "\<forall>k. d \<le> k \<and> k < d \<longrightarrow> gt_undef (read_at c k) (read_at c (k + 1))"
      by (intro allI impI) linarith
    ultimately show ?thesis
      using False by (intro exI [of _ d] conjI) simp_all
  next
    case True
    then have "d + 1 < length c"
      by (simp add: gt_undef_read_at)
    then have "length c - (d + 1) < length c - d"
      by linarith
    from less [OF this] obtain e where e: "descend c (d + 1) = Some e" "d + 1 \<le> e"
      "\<not> gt_undef (read_at c e) (read_at c (e + 1))"
      "\<forall>k. d + 1 \<le> k \<and> k < e \<longrightarrow> gt_undef (read_at c k) (read_at c (k + 1))"
      by (elim exE conjE)
    have "descend c d = Some e"
      using True e(1) by (subst descend.simps) simp
    moreover have "d \<le> e"
      using e(2) by linarith
    moreover have "gt_undef (read_at c k) (read_at c (k + 1))" if "d \<le> k" "k < e" for k
    proof (cases "k = d")
      case True
      with \<open>gt_undef (read_at c d) (read_at c (d + 1))\<close> show ?thesis by simp
    next
      case False
      with that have "d + 1 \<le> k \<and> k < e" by linarith
      with e(4) show ?thesis by (elim allE [of _ k] impE)
    qed
    then have "\<forall>k. d \<le> k \<and> k < e \<longrightarrow> gt_undef (read_at c k) (read_at c (k + 1))"
      by (intro allI impI) (elim conjE)
    ultimately show ?thesis
      using e(3) by (intro exI [of _ e] conjI)
  qed
qed

lemma descend_returns: "\<exists>e. descend c d = Some e"
  using descend_halts [of c d] by (elim exE conjE) (rule exI)

lemma descend_bound:
  assumes "descend c 0 = Some e"
  shows "(c \<noteq> [] \<longrightarrow> e \<le> length c - 1) \<and> (c = [] \<longrightarrow> e = 0)"
proof -
  from descend_halts [of c 0] obtain e' where e': "descend c 0 = Some e'"
    "\<forall>k. 0 \<le> k \<and> k < e' \<longrightarrow> gt_undef (read_at c k) (read_at c (k + 1))"
    by (elim exE conjE)
  from e'(1) assms have "e' = e" by simp
  with e'(2) have run: "gt_undef (read_at c k) (read_at c (k + 1))" if "k < e" for k
    using that by simp
  show ?thesis
  proof (cases e)
    case 0
    then show ?thesis by simp
  next
    case (Suc k)
    then have "gt_undef (read_at c k) (read_at c (k + 1))" by (intro run) simp
    then have "k + 1 < length c" by (simp add: gt_undef_read_at)
    with Suc show ?thesis by auto
  qed
qed

lemma autoCorrelate_returns: "\<exists>r. autoCorrelate buf sampleRate gate = Some r"
proof -
  obtain d where "descend (correlate (trimmed buf)) 0 = Some d"
    using descend_returns [of "correlate (trimmed buf)" 0] by (rule exE)
  then show ?thesis
    unfolding autoCorrelate_def Let_def
    by (cases "js_lt (db_level buf) gate") (simp_all only: if_True if_False option.case, blast+)
qed

text \<open>
  C10. \<open>autoCorrelate\<close> returns on every buffer, sample rate and gate. The descent loop
  \<open>while (c[d] > c[d + 1]) d++\<close>, started at \<open>0\<close> on any array \<open>c\<close>, halts with
  \<open>d \<le> length c - 1\<close> when \<open>c\<close> is not empty and with \<open>d = 0\<close> when it is, because
  the comparison is false as soon as \<open>d + 1\<close> is past the end of the array.
\<close>

theorem autoCorrelate_terminates:
  "(\<exists>r. autoCorrelate buf sampleRate gate = Some r)
   \<and> (\<exists>d. descend c 0 = Some d \<and> (c \<noteq> [] \<longrightarrow> d \<le> length c - 1) \<and> (c = [] \<longrightarrow> d = 0))
   \<and> (\<forall>d. length c \<le> d + 1 \<longrightarrow> \<not> gt_undef (read_at c d) (read_at c (d + 1)))"
proof -
  obtain d where d: "descend c 0 = Some d"
    using descend_returns [of c 0] by (rule exE)
  show ?thesis
  proof (intro conjI)
    show "\<exists>r. autoCorrelate buf sampleRate gate = Some r"
      by (rule autoCorrelate_returns)
    show "\<exists>d. descend c 0 = Some d \<and> (c \<noteq> [] \<longrightarrow> d \<le> length c - 1) \<and> (c = [] \<longrightarrow> d = 0)"
      using d descend_bound [OF d] by blast
    show "\<forall>d. length c \<le> d + 1 \<longrightarrow> \<not> gt_undef (read_at c d) (read_at c (d + 1))"
      by (simp add: gt_undef_read_at)
  qed
qed


theorem autoCorrelate_terminates_witness:
  "(\<exists>r. autoCorrelate [255, 128, 128, 255] (Fin 44100) (Fin 30) = Some r)
   \<and> (\<exists>d. descend [3, 2, 1] 0 = Some d \<and> d \<le> 2)
   \<and> \<not> gt_undef (read_at [3, 2, 1] 2) (read_at [3, 2, 1] 3)"
proof -
  note t = autoCorrelate_terminates [of "[255, 128, 128, 255]" "Fin 44100" "Fin 30" "[3, 2, 1]"]
  from t have "\<exists>r. autoCorrelate [255, 128, 128, 255] (Fin 44100) (Fin 30) = Some r"
    by (rule conjunct1)
  moreover from t obtain d where "descend [3, 2, 1] 0 = Some d"
      and "[3, 2, 1] \<noteq> ([]::real list) \<longrightarrow> d \<le> length [3, 2, 1::real] - 1"
    by (elim conjE exE)
  then have "\<exists>d. descend [3, 2, 1] 0 = Some d \<and> d \<le> 2"
    by (intro exI [of _ d]) simp
  moreover from t have "length [3, 2, 1::real] \<le> 2 + 1
      \<longrightarrow> \<not> gt_undef (read_at [3, 2, 1] 2) (read_at [3, 2, 1] (2 + 1))"
    by (elim conjE allE [of _ 2])
  then have "\<not> gt_undef (read_at [3, 2, 1] 2) (read_at [3, 2, 1] 3)"
    by simp
  ultimately show ?thesis
    by (intro conjI)
qed


section \<open>The autocorrelation and the peak search\<close>

lemma val_bounds: "- 1 \<le> val b" "val b < 1"
proof -
  have "unat b < 256" using unsigned_less [of b] by simp
  then have u: "real (unat b) < 256" by linarith
  have "0 \<le> real (unat b)" by (rule of_nat_0_le_iff)
  then show "- 1 \<le> val b" unfolding val_def by argo
  from u show "val b < 1" unfolding val_def by argo
qed

lemma val_product_gt: "- 1 < val a * val b"
proof (cases "0 \<le> val a * val b")
  case True
  then show ?thesis by linarith
next
  case False
  then have neg: "val a * val b < 0" by simp
  then consider "val a < 0" "0 < val b" | "0 < val a" "val b < 0"
    by (auto simp: mult_less_0_iff)
  then show ?thesis
  proof cases
    case 1
    have "val a * val b \<ge> val a * 1"
      using 1 val_bounds(2) [of b] by (intro mult_left_mono_neg) simp_all
    then have "val a \<le> val a * val b" by simp
    moreover have "val a \<noteq> val a * val b \<or> val a * val b > - 1"
    proof (cases "val a = - 1")
      case True
      have "val b < 1" by (rule val_bounds)
      with True have "val a * val b > - 1" by simp
      then show ?thesis ..
    next
      case False
      with val_bounds(1) [of a] have "- 1 < val a" by simp
      with \<open>val a \<le> val a * val b\<close> show ?thesis by simp
    qed
    ultimately show ?thesis using val_bounds(1) [of a] by linarith
  next
    case 2
    have "val a * val b \<ge> 1 * val b"
      using 2 val_bounds(2) [of a] by (intro mult_right_mono_neg) simp_all
    then have le: "val b \<le> val a * val b" by simp
    show ?thesis
    proof (cases "val b = - 1")
      case True
      have "val a < 1" by (rule val_bounds)
      with True show ?thesis by simp
    next
      case False
      with val_bounds(1) [of b] have "- 1 < val b" by simp
      with le show ?thesis by linarith
    qed
  qed
qed

lemma corr_at_spec_c: "corr_at b2 i = spec_c b2 i"
proof -
  have "corr_at b2 i = (\<Sum>j\<leftarrow>[0..<length b2 - i]. val (b2 ! j) * val (b2 ! (j + i)))"
    by (simp add: corr_at_def foldl_plus_sum_list val_def)
  also have "\<dots> = spec_c b2 i"
    by (simp add: spec_c_def interv_sum_list_conv_sum_set_nat)
  finally show ?thesis .
qed

lemma correlate_nth: "i < length b2 \<Longrightarrow> correlate b2 ! i = spec_c b2 i"
  by (simp add: correlate_def corr_at_spec_c)

lemma length_correlate: "length (correlate b2) = length b2"
  by (simp add: correlate_def)

lemma spec_c_last:
  assumes "0 < length b2"
  shows "spec_c b2 (length b2 - 1) = val (b2 ! 0) * val (b2 ! (length b2 - 1))"
proof -
  have "length b2 - (length b2 - 1) = 1" using assms by linarith
  then show ?thesis by (simp add: spec_c_def)
qed


lemma peak_step_cases:
  "peak_step c i s = (if fst s < c ! i then (c ! i, int i) else s)"
  by (simp add: peak_step_def)

lemma peak_invariant:
  assumes "d \<le> n"
  shows "(peak c d n = (- 1, - 1) \<and> (\<forall>k. d \<le> k \<and> k < n \<longrightarrow> c ! k \<le> - 1))
       \<or> (- 1 < fst (peak c d n)
          \<and> (\<exists>p. snd (peak c d n) = int p \<and> d \<le> p \<and> p < n \<and> c ! p = fst (peak c d n)
                \<and> (\<forall>k. d \<le> k \<and> k < n \<longrightarrow> c ! k \<le> c ! p)
                \<and> (\<forall>k. d \<le> k \<and> k < p \<longrightarrow> c ! k < c ! p)))"
  using assms
proof (induction n rule: dec_induct)
  case base
  then show ?case by (simp add: peak_def)
next
  case (step n)
  have next_state: "peak c d (Suc n) = peak_step c n (peak c d n)"
    using step.hyps(1) by (simp add: peak_def)
  from step.IH show ?case
  proof (elim disjE conjE exE)
    assume start: "peak c d n = (- 1, - 1)"
      and low: "\<forall>k. d \<le> k \<and> k < n \<longrightarrow> c ! k \<le> - 1"
    show ?thesis
    proof (cases "- 1 < c ! n")
      case True
      then have now: "peak c d (Suc n) = (c ! n, int n)"
        by (simp add: next_state start peak_step_cases)
      have "c ! k < c ! n" if "d \<le> k" "k < n" for k
        using low that True by fastforce
      then have "\<forall>k. d \<le> k \<and> k < n \<longrightarrow> c ! k < c ! n" by simp
      moreover from this have "\<forall>k. d \<le> k \<and> k < Suc n \<longrightarrow> c ! k \<le> c ! n"
        by (metis less_Suc_eq less_eq_real_def)
      ultimately have "- 1 < fst (peak c d (Suc n))
          \<and> (\<exists>p. snd (peak c d (Suc n)) = int p \<and> d \<le> p \<and> p < Suc n
                \<and> c ! p = fst (peak c d (Suc n))
                \<and> (\<forall>k. d \<le> k \<and> k < Suc n \<longrightarrow> c ! k \<le> c ! p)
                \<and> (\<forall>k. d \<le> k \<and> k < p \<longrightarrow> c ! k < c ! p))"
        using True step.hyps(1) by (simp add: now) 
      then show ?thesis ..
    next
      case False
      then have now: "peak c d (Suc n) = (- 1, - 1)"
        by (simp add: next_state start peak_step_cases)
      from False low have "\<forall>k. d \<le> k \<and> k < Suc n \<longrightarrow> c ! k \<le> - 1"
        by (metis less_Suc_eq not_less)
      with now show ?thesis by simp
    qed
  next
    fix p
    assume mx: "- 1 < fst (peak c d n)"
      and p: "snd (peak c d n) = int p" "d \<le> p" "p < n" "c ! p = fst (peak c d n)"
      and upper: "\<forall>k. d \<le> k \<and> k < n \<longrightarrow> c ! k \<le> c ! p"
      and strict: "\<forall>k. d \<le> k \<and> k < p \<longrightarrow> c ! k < c ! p"
    show ?thesis
    proof (cases "c ! p < c ! n")
      case True
      then have now: "peak c d (Suc n) = (c ! n, int n)"
        by (simp add: next_state peak_step_cases p(4) [symmetric])
      have "c ! k < c ! n" if "d \<le> k" "k < n" for k
        using upper that True by fastforce
      then have "\<forall>k. d \<le> k \<and> k < n \<longrightarrow> c ! k < c ! n" by simp
      moreover from this have "\<forall>k. d \<le> k \<and> k < Suc n \<longrightarrow> c ! k \<le> c ! n"
        by (metis less_Suc_eq less_eq_real_def)
      moreover have "- 1 < c ! n" using mx True p(4) by linarith
      ultimately have "- 1 < fst (peak c d (Suc n))
          \<and> (\<exists>p. snd (peak c d (Suc n)) = int p \<and> d \<le> p \<and> p < Suc n
                \<and> c ! p = fst (peak c d (Suc n))
                \<and> (\<forall>k. d \<le> k \<and> k < Suc n \<longrightarrow> c ! k \<le> c ! p)
                \<and> (\<forall>k. d \<le> k \<and> k < p \<longrightarrow> c ! k < c ! p))"
        using step.hyps(1) by (simp add: now)
      then show ?thesis ..
    next
      case False
      then have now: "peak c d (Suc n) = peak c d n"
        by (simp add: next_state peak_step_cases p(4) [symmetric])
      from False upper have "\<forall>k. d \<le> k \<and> k < Suc n \<longrightarrow> c ! k \<le> c ! p"
        by (metis less_Suc_eq not_less)
      with mx p strict have "- 1 < fst (peak c d (Suc n))
          \<and> (\<exists>p. snd (peak c d (Suc n)) = int p \<and> d \<le> p \<and> p < Suc n
                \<and> c ! p = fst (peak c d (Suc n))
                \<and> (\<forall>k. d \<le> k \<and> k < Suc n \<longrightarrow> c ! k \<le> c ! p)
                \<and> (\<forall>k. d \<le> k \<and> k < p \<longrightarrow> c ! k < c ! p))"
        unfolding now by (intro conjI exI [of _ p]) simp_all
      then show ?thesis ..
    qed
  qed
qed


lemma spec_d_unique:
  assumes "spec_d c n d" "spec_d c n d'"
  shows "d = d'"
proof (rule ccontr)
  assume "d \<noteq> d'"
  then consider "d < d'" | "d' < d" by linarith
  then show False
  proof cases
    case 1
    with assms(2) have "descends_at c n d" by (simp add: spec_d_def)
    with assms(1) show False by (simp add: spec_d_def)
  next
    case 2
    with assms(1) have "descends_at c n d'" by (simp add: spec_d_def)
    with assms(2) show False by (simp add: spec_d_def)
  qed
qed

lemma spec_mp_unique:
  assumes "spec_mp c n d p" "spec_mp c n d p'"
  shows "p = p'"
proof (rule ccontr)
  assume "p \<noteq> p'"
  then consider "p < p'" | "p' < p" by linarith
  then show False
  proof cases
    case 1
    with assms have "c p < c p'" "c p' \<le> c p" by (simp_all add: spec_mp_def)
    then show False by simp
  next
    case 2
    with assms have "c p' < c p" "c p \<le> c p'" by (simp_all add: spec_mp_def)
    then show False by simp
  qed
qed

lemma descends_at_correlate:
  "gt_undef (read_at (correlate b2) k) (read_at (correlate b2) (k + 1))
     \<longleftrightarrow> descends_at (spec_c b2) (length b2) k"
proof (cases "k + 1 < length b2")
  case True
  then have "correlate b2 ! k = spec_c b2 k" "correlate b2 ! (k + 1) = spec_c b2 (k + 1)"
    by (simp_all add: correlate_nth)
  with True show ?thesis
    by (simp add: gt_undef_read_at descends_at_def length_correlate)
next
  case False
  then show ?thesis
    by (simp add: gt_undef_read_at descends_at_def length_correlate)
qed

text \<open>The loop ends at the index the specification calls \<open>d\<close>.\<close>

lemma descend_spec_d:
  "\<exists>d. descend (correlate b2) 0 = Some d \<and> spec_d (spec_c b2) (length b2) d
       \<and> (b2 \<noteq> [] \<longrightarrow> d < length b2)"
proof -
  from descend_halts [of "correlate b2" 0] obtain d where d: "descend (correlate b2) 0 = Some d"
    and stop: "\<not> gt_undef (read_at (correlate b2) d) (read_at (correlate b2) (d + 1))"
    and run: "\<forall>k. 0 \<le> k \<and> k < d \<longrightarrow>
                gt_undef (read_at (correlate b2) k) (read_at (correlate b2) (k + 1))"
    by (elim exE conjE)
  have "spec_d (spec_c b2) (length b2) d"
    using stop run by (simp add: spec_d_def descends_at_correlate [symmetric])
  moreover have "b2 \<noteq> [] \<longrightarrow> d < length b2"
    using descend_bound [OF d] by (cases b2) (simp_all add: length_correlate correlate_def)
  ultimately show ?thesis using d by blast
qed

text \<open>On a non-empty buffer the search ends at the lag the specification calls \<open>mp\<close>.\<close>

lemma peak_spec_mp:
  assumes "d < length b2"
  shows "\<exists>p. snd (peak (correlate b2) d (length b2)) = int p
           \<and> spec_mp (spec_c b2) (length b2) d p"
proof -
  define c where "c = correlate b2"
  define n where "n = length b2"
  have nth: "c ! k = spec_c b2 k" if "k < n" for k
    using that by (simp add: c_def n_def correlate_nth)
  have last: "- 1 < c ! (n - 1)"
  proof -
    have "0 < length b2" using assms by linarith
    then have "c ! (n - 1) = val (b2 ! 0) * val (b2 ! (length b2 - 1))"
      using nth [of "n - 1"] spec_c_last [of b2] by (simp add: n_def)
    then show ?thesis by (simp add: val_product_gt)
  qed
  have dn: "d \<le> n" "d \<le> n - 1" "n - 1 < n" using assms by (simp_all add: n_def)
  from peak_invariant [OF dn(1), of c] show ?thesis
  proof (elim disjE conjE exE)
    assume "\<forall>k. d \<le> k \<and> k < n \<longrightarrow> c ! k \<le> - 1"
    with dn have "c ! (n - 1) \<le> - 1" by blast
    with last show ?thesis by simp
  next
    fix p
    assume p: "snd (peak c d n) = int p" "d \<le> p" "p < n"
      and upper: "\<forall>k. d \<le> k \<and> k < n \<longrightarrow> c ! k \<le> c ! p"
      and strict: "\<forall>k. d \<le> k \<and> k < p \<longrightarrow> c ! k < c ! p"
    have "spec_c b2 k \<le> spec_c b2 p" if "d \<le> k" "k < n" for k
    proof -
      from upper that have "c ! k \<le> c ! p" by blast
      then show ?thesis using nth [of k] nth [of p] p(3) that by simp
    qed
    moreover have "spec_c b2 k < spec_c b2 p" if "d \<le> k" "k < p" for k
    proof -
      from strict that have "c ! k < c ! p" by blast
      then show ?thesis using nth [of k] nth [of p] p(3) that by simp
    qed
    ultimately have "spec_mp (spec_c b2) n d p"
      using p(2,3) by (simp add: spec_mp_def)
    with p(1) show ?thesis
      unfolding c_def n_def by (intro exI [of _ p] conjI)
  qed
qed

lemma autoCorrelate_past_gate:
  assumes "\<not> js_lt (db_level buf) gate"
    and "descend (correlate (trimmed buf)) 0 = Some d"
  shows "autoCorrelate buf sampleRate gate =
           Some (js_div sampleRate
                   (Fin (real_of_int (snd (peak (correlate (trimmed buf)) d (length (trimmed buf)))))))"
  unfolding autoCorrelate_def Let_def using assms
  by (simp only: if_False option.case)

text \<open>
  C1. For a buffer that passes the gate, with \<open>b2\<close> the trimmed buffer, \<open>n\<close> its length
  and \<open>c\<close> the unnormalized autocorrelation of its centred samples: whenever \<open>d\<close> is the
  first index at which \<open>c\<close> stops decreasing strictly and \<open>mp\<close> the earliest lag in
  \<open>[d, n)\<close> with the maximum of \<open>c\<close> there, \<open>autoCorrelate\<close> returns \<open>sampleRate / mp\<close>; and
  such \<open>d\<close> and \<open>mp\<close> exist as soon as \<open>b2\<close> is not empty. (The initial value \<open>mx = -1\<close>
  never decides the search, because the last entry of \<open>c\<close> is a single product of two
  centred samples, which is above \<open>-1\<close>.)
\<close>

theorem estimate_is_rate_over_peak_lag:
  assumes gate: "\<not> js_lt (db_level buf) gate"
    and b2: "b2 = trimmed buf"
  shows "(\<forall>d mp. spec_d (spec_c b2) (length b2) d \<and> spec_mp (spec_c b2) (length b2) d mp
            \<longrightarrow> autoCorrelate buf sampleRate gate = Some (js_div sampleRate (Fin (real mp))))
       \<and> (0 < length b2 \<longrightarrow>
            (\<exists>d mp. spec_d (spec_c b2) (length b2) d \<and> spec_mp (spec_c b2) (length b2) d mp))"
proof (intro conjI allI impI)
  fix d mp
  assume spec: "spec_d (spec_c b2) (length b2) d \<and> spec_mp (spec_c b2) (length b2) d mp"
  then have "mp < length b2" by (simp add: spec_mp_def)
  then have nonempty: "b2 \<noteq> []" by auto
  from descend_spec_d [of b2] obtain d0 where d0: "descend (correlate b2) 0 = Some d0"
    "spec_d (spec_c b2) (length b2) d0" "b2 \<noteq> [] \<longrightarrow> d0 < length b2"
    by (elim exE conjE)
  have dd: "d0 = d" using d0(2) spec by (intro spec_d_unique [of "spec_c b2" "length b2"]) simp_all
  have "d < length b2" using d0(3) nonempty dd by simp
  from peak_spec_mp [OF this] obtain p where p: "snd (peak (correlate b2) d (length b2)) = int p"
    "spec_mp (spec_c b2) (length b2) d p"
    by (elim exE conjE)
  have "p = mp" using p(2) spec by (intro spec_mp_unique [of "spec_c b2" "length b2" d]) simp_all
  with p(1) have "snd (peak (correlate b2) d (length b2)) = int mp" by simp
  with autoCorrelate_past_gate [OF gate, of d sampleRate] d0(1) dd
  show "autoCorrelate buf sampleRate gate = Some (js_div sampleRate (Fin (real mp)))"
    by (simp add: b2)
next
  assume "0 < length b2"
  then have nonempty: "b2 \<noteq> []" by auto
  from descend_spec_d [of b2] obtain d where d: "spec_d (spec_c b2) (length b2) d" "d < length b2"
    using nonempty by (elim exE conjE) simp
  from peak_spec_mp [OF d(2)] d(1)
  show "\<exists>d mp. spec_d (spec_c b2) (length b2) d \<and> spec_mp (spec_c b2) (length b2) d mp"
    by blast
qed


text \<open>A buffer of period four: the descent ends at lag 2 and the peak is at lag 4.\<close>

lemma example_gate: "\<not> js_lt (db_level [128, 255, 128, 0, 128, 255, 128]) (Fin 30)"
  by (simp add: db_level_lt_iff sum_squares_def val_def powr_minus)

lemma example_trimmed:
  "trimmed [128, 255, 128, 0, 128, 255, 128] = [128, 255, 128, 0, 128, 255]"
  by (simp add: trimmed_def js_slice_def rel_index_def val_def)

lemma example_correlate:
  "correlate [128, 255, 128, 0, 128, 255] = [24321 / 8192, 0, - (127 / 64), 0, 16129 / 16384, 0]"
  by (simp add: correlate_def corr_at_def upt_rec_numeral)

lemma example_descend:
  "descend [24321 / 8192, 0, - (127 / 64), 0, 16129 / 16384, 0] 0 = Some 2"
  by (simp add: descend.simps read_at_def)

lemma example_peak:
  "peak [24321 / 8192, 0, - (127 / 64), 0, 16129 / 16384, 0] 2 6 = (16129 / 16384, 4)"
  by (simp add: peak_def peak_step_def upt_rec_numeral)

theorem estimate_is_rate_over_peak_lag_witness:
  "\<not> js_lt (db_level [128, 255, 128, 0, 128, 255, 128]) (Fin 30)
   \<and> [128, 255, 128, 0, 128, 255] = trimmed [128, 255, 128, 0, 128, 255, 128]
   \<and> spec_d (spec_c [128, 255, 128, 0, 128, 255]) 6 2
   \<and> spec_mp (spec_c [128, 255, 128, 0, 128, 255]) 6 2 4
   \<and> autoCorrelate [128, 255, 128, 0, 128, 255, 128] (Fin 44100) (Fin 30) = Some (Fin 11025)"
proof -
  define b2 :: "u8 list" where "b2 = [128, 255, 128, 0, 128, 255]"
  have len: "length b2 = 6" by (simp add: b2_def)
  have trim: "b2 = trimmed [128, 255, 128, 0, 128, 255, 128]"
    by (simp only: example_trimmed b2_def)
  from descend_spec_d [of b2] obtain d where "descend (correlate b2) 0 = Some d"
    and "spec_d (spec_c b2) (length b2) d"
    by (elim exE conjE)
  then have d: "spec_d (spec_c b2) 6 2"
    by (simp add: len) (simp add: b2_def example_correlate example_descend)
  have "2 < length b2" by (simp add: len)
  from peak_spec_mp [OF this] obtain p where "snd (peak (correlate b2) 2 (length b2)) = int p"
    and "spec_mp (spec_c b2) (length b2) 2 p"
    by (elim exE conjE)
  then have mp: "spec_mp (spec_c b2) 6 2 4"
    by (simp add: len) (simp add: b2_def example_correlate example_peak)
  from estimate_is_rate_over_peak_lag [OF example_gate trim, of "Fin 44100"] d mp
  have "autoCorrelate [128, 255, 128, 0, 128, 255, 128] (Fin 44100) (Fin 30)
          = Some (js_div (Fin 44100) (Fin (real 4)))"
    by (simp only: len)
  with example_gate trim d mp show ?thesis
    by (simp add: b2_def)
qed


section \<open>Silence and degenerate buffers\<close>

lemma val_centre: "val 128 = 0"
  by (simp add: val_def)

lemma sum_squares_silent:
  assumes "\<forall>b\<in>set buf. b = 128"
  shows "sum_squares buf = 0"
proof -
  have "(\<Sum>b\<leftarrow>buf. (val b)\<^sup>2) = 0"
    using assms by (induction buf) (simp_all add: val_centre)
  then show ?thesis
    by (simp only: sum_squares_sum_list)
qed

text \<open>
  C7. For every buffer of pure silence, that is with samples that all equal \<open>128\<close>, and
  every gate \<open>\<ge> 0\<close>, \<open>autoCorrelate\<close> returns \<open>-1\<close>: the sum of squares is \<open>0\<close>, so is the
  rms, the level is \<open>-Infinity\<close>, which is below the gate.
\<close>

theorem silence_rejected:
  assumes "buf \<noteq> []" and "\<forall>b\<in>set buf. b = 128" and "js_le (Fin 0) gate"
  shows "autoCorrelate buf sampleRate gate = Some (Fin (- 1))"
proof -
  have "db_level buf = NInf"
    using assms(1) sum_squares_silent [OF assms(2)] by (rule db_level_silent)
  moreover have "js_lt NInf gate"
    using assms(3) by (cases gate) simp_all
  ultimately show ?thesis
    by (simp add: autoCorrelate_def)
qed

theorem silence_rejected_witness:
  "[128, 128, 128] \<noteq> ([]::u8 list) \<and> set [128, 128, 128 :: u8] = {128}
   \<and> js_le (Fin 0) (Fin (0::real))
   \<and> autoCorrelate [128, 128, 128] (Fin 44100) (Fin 0) = Some (Fin (- 1))"
  using silence_rejected [of "[128, 128, 128]" "Fin 0" "Fin 44100"] by simp

lemma descend_empty: "descend [] 0 = Some 0"
  by (simp add: descend.simps read_at_def)

text \<open>
  The zero-length buffer is no buffer of silence: \<open>rms / buf.length\<close> is \<open>0 / 0\<close>, the
  level is \<open>NaN\<close>, the gate test is false, and the result is \<open>sampleRate / -1\<close>. The
  specification classes it as malformed input.
\<close>

lemma empty_buffer_result:
  "autoCorrelate [] (Fin 44100) (Fin 30) = Some (Fin (- 44100))"
  by (simp add: autoCorrelate_def db_level_empty trimmed_def js_slice_def rel_index_def
        correlate_def descend_empty peak_def)

lemma spec_c_silent:
  assumes "\<forall>b\<in>set b2. b = 128"
  shows "spec_c b2 k = 0"
proof -
  have "val (b2 ! j) = 0" if "j < length b2" for j
  proof -
    from that have "b2 ! j \<in> set b2" by (rule nth_mem)
    with assms have "b2 ! j = 128" by blast
    then show ?thesis by (simp only: val_centre)
  qed
  then show ?thesis
    by (simp add: spec_c_def)
qed

lemma degenerate_empty:
  assumes "\<not> js_lt (db_level buf) gate" and "trimmed buf = []"
  shows "autoCorrelate buf sampleRate gate = Some (js_div sampleRate (Fin (- 1)))"
  using autoCorrelate_past_gate [OF assms(1), of 0 sampleRate]
  by (simp add: assms(2) correlate_def descend_empty peak_def)

lemma degenerate_silent:
  assumes "\<not> js_lt (db_level buf) gate" and "trimmed buf \<noteq> []"
    and "\<forall>b\<in>set (trimmed buf). b = 128"
  shows "autoCorrelate buf sampleRate gate = Some (js_div sampleRate (Fin 0))"
proof -
  define b2 where "b2 = trimmed buf"
  have zero: "spec_c b2 k = 0" for k
    using assms(3) by (simp add: b2_def spec_c_silent)
  from descend_spec_d [of b2] obtain d where d: "descend (correlate b2) 0 = Some d"
    "spec_d (spec_c b2) (length b2) d"
    by (elim exE conjE)
  have "d = 0"
  proof (rule ccontr)
    assume "d \<noteq> 0"
    then have "0 < d" by simp
    with d(2) have "descends_at (spec_c b2) (length b2) 0" by (simp add: spec_d_def)
    then show False by (simp add: descends_at_def zero)
  qed
  have "0 < length b2" using assms(2) by (simp add: b2_def)
  from peak_spec_mp [OF this] obtain p where p: "snd (peak (correlate b2) 0 (length b2)) = int p"
    "spec_mp (spec_c b2) (length b2) 0 p"
    by (elim exE conjE)
  have "p = 0"
  proof (rule ccontr)
    assume "p \<noteq> 0"
    then have "0 \<in> {0..<p}" by simp
    with p(2) have "spec_c b2 0 < spec_c b2 p" unfolding spec_mp_def by blast
    then show False by (simp add: zero)
  qed
  with p(1) have "snd (peak (correlate (trimmed buf)) 0 (length (trimmed buf))) = 0"
    by (simp add: b2_def)
  with autoCorrelate_past_gate [OF assms(1), of 0 sampleRate] d(1) \<open>d = 0\<close> show ?thesis
    by (simp add: b2_def)
qed

text \<open>
  C4, as the code has it. For a buffer that passes the gate and a positive sample rate
  \<open>s\<close>, \<open>autoCorrelate\<close> returns, but not the sentinel \<open>-1\<close>: when the trimmed buffer is
  empty \<open>mp\<close> stays \<open>-1\<close> and the result is \<open>s / -1 = -s\<close>; when it is not empty and all
  its samples are \<open>128\<close>, the autocorrelation is zero everywhere, \<open>mp\<close> is \<open>0\<close> and the
  result is \<open>s / 0 = +Infinity\<close>.
\<close>

theorem degenerate_buffers:
  assumes "\<not> js_lt (db_level buf) gate" and "0 < s"
  shows "(trimmed buf = [] \<longrightarrow> autoCorrelate buf (Fin s) gate = Some (Fin (- s)))
       \<and> (trimmed buf \<noteq> [] \<and> (\<forall>b\<in>set (trimmed buf). b = 128)
            \<longrightarrow> autoCorrelate buf (Fin s) gate = Some PInf)"
proof (intro conjI impI)
  assume "trimmed buf = []"
  from degenerate_empty [OF assms(1) this, of "Fin s"]
  show "autoCorrelate buf (Fin s) gate = Some (Fin (- s))" by simp
next
  assume "trimmed buf \<noteq> [] \<and> (\<forall>b\<in>set (trimmed buf). b = 128)"
  then have "autoCorrelate buf (Fin s) gate = Some (js_div (Fin s) (Fin 0))"
    using degenerate_silent [OF assms(1), of "Fin s"] by blast
  then show "autoCorrelate buf (Fin s) gate = Some PInf"
    using assms(2) by (simp add: inf_signed_def)
qed

lemma loud_edges_gate: "\<not> js_lt (db_level [255, 128, 128, 255]) (Fin 30)"
  by (simp add: db_level_lt_iff sum_squares_def val_def powr_minus)

lemma loud_edges_trimmed: "trimmed [255, 128, 128, 255] = [128, 128]"
  by (simp add: trimmed_def js_slice_def rel_index_def val_def)

lemma single_gate: "\<not> js_lt (db_level [255]) (Fin 30)"
  by (simp add: db_level_lt_iff sum_squares_def val_def powr_minus)

lemma single_trimmed: "trimmed [255] = []"
  by (simp add: trimmed_def js_slice_def rel_index_def val_def)

theorem degenerate_buffers_witness:
  "\<not> js_lt (db_level [255]) (Fin 30) \<and> trimmed [255] = []
   \<and> autoCorrelate [255] (Fin 44100) (Fin 30) = Some (Fin (- 44100))
   \<and> \<not> js_lt (db_level [255, 128, 128, 255]) (Fin 30)
   \<and> trimmed [255, 128, 128, 255] = [128, 128]
   \<and> autoCorrelate [255, 128, 128, 255] (Fin 44100) (Fin 30) = Some PInf"
  using degenerate_buffers [OF single_gate, of 44100]
    degenerate_buffers [OF loud_edges_gate, of 44100]
  by (simp add: single_gate loud_edges_gate single_trimmed loud_edges_trimmed)

text \<open>
  Two loud samples around two centred ones: the buffer passes the default gate, the
  trimmed buffer is the two centred samples, and the result is \<open>+Infinity\<close>.
\<close>

theorem all_zero_correlation_counterexample:
  "\<not> js_lt (db_level [255, 128, 128, 255]) (Fin 30)
   \<and> trimmed [255, 128, 128, 255] = [128, 128]
   \<and> correlate [128, 128] = [0, 0]
   \<and> autoCorrelate [255, 128, 128, 255] (Fin 44100) (Fin 30) = Some PInf"
proof -
  have c: "correlate [128, 128] = [0, 0]"
    by (simp add: correlate_def corr_at_def upt_rec_numeral)
  have d: "descend [0, 0] 0 = Some 0"
    by (simp add: descend.simps read_at_def)
  have p: "peak [0, 0] 0 (Suc (Suc 0)) = (0, 0)"
    by (simp add: peak_def peak_step_def)
  have "autoCorrelate [255, 128, 128, 255] (Fin 44100) (Fin 30) = Some PInf"
    by (simp add: autoCorrelate_def Let_def loud_edges_gate loud_edges_trimmed c d p inf_signed_def)
  with loud_edges_gate loud_edges_trimmed c show ?thesis by simp
qed


section \<open>Edge trimming\<close>

lemma scan_start_default:
  "(\<forall>k. i \<le> k \<and> real k < real (length buf) / 2 \<longrightarrow> \<not> \<bar>val (buf ! k)\<bar> < 0.2)
     \<Longrightarrow> scan_start buf i = 0"
proof (induction buf i rule: scan_start.induct)
  case (1 buf i)
  show ?case
  proof (cases "real i < real (length buf) / 2")
    case False
    then show ?thesis by simp
  next
    case True
    with "1.prems" have loud: "\<not> \<bar>val (buf ! i)\<bar> < 0.2" by simp
    have "scan_start buf (i + 1) = 0"
      using True loud "1.prems" by (intro "1.IH") simp_all
    with True loud show ?thesis by simp
  qed
qed

lemma scan_end_default:
  "(\<forall>k. i \<le> k \<and> real k < real (length buf) / 2 \<longrightarrow> \<not> \<bar>val (buf ! (length buf - k))\<bar> < 0.2)
     \<Longrightarrow> scan_end buf i = int (length buf) - 1"
proof (induction buf i rule: scan_end.induct)
  case (1 buf i)
  show ?case
  proof (cases "real i < real (length buf) / 2")
    case False
    then show ?thesis by simp
  next
    case True
    with "1.prems" have loud: "\<not> \<bar>val (buf ! (length buf - i))\<bar> < 0.2" by simp
    have "scan_end buf (i + 1) = int (length buf) - 1"
      using True loud "1.prems" by (intro "1.IH") simp_all
    with True loud show ?thesis by simp
  qed
qed

text \<open>
  With no quiet sample in either half the working buffer is the buffer without its last
  sample: the start stays at \<open>0\<close>, the end at \<open>buf.length - 1\<close>, and \<open>slice\<close> excludes
  its end index.
\<close>

lemma trimmed_default:
  assumes "\<forall>k. real k < real (length buf) / 2 \<longrightarrow> \<not> \<bar>val (buf ! k)\<bar> < 0.2"
    and "\<forall>k. 1 \<le> k \<and> real k < real (length buf) / 2 \<longrightarrow> \<not> \<bar>val (buf ! (length buf - k))\<bar> < 0.2"
  shows "trimmed buf = butlast buf"
proof -
  have r1: "scan_start buf 0 = 0"
    using assms(1) by (intro scan_start_default) simp
  have r2: "scan_end buf 1 = int (length buf) - 1"
    using assms(2) by (intro scan_end_default) simp
  show ?thesis
  proof (cases "buf = []")
    case True
    then show ?thesis by (simp add: trimmed_def js_slice_def rel_index_def)
  next
    case False
    then have "0 < length buf" by simp
    then have "rel_index (length buf) (int (length buf) - 1) = length buf - 1"
      by (simp add: rel_index_def nat_diff_distrib')
    moreover have "rel_index (length buf) 0 = 0"
      by (simp add: rel_index_def)
    moreover have "trimmed buf = js_slice buf 0 (int (length buf) - 1)"
      by (simp only: trimmed_def r1 r2)
    ultimately show ?thesis
      by (simp add: js_slice_def butlast_conv_take)
  qed
qed

lemma all_loud_gate: "\<not> js_lt (db_level [255, 255, 255, 255]) (Fin 30)"
  by (simp add: db_level_lt_iff sum_squares_def val_def powr_minus)

text \<open>
  C5. The start side is as claimed (\<open>scan_start_default\<close>): without a quiet sample in the
  first half the working buffer starts at index \<open>0\<close>. The end side is not: without a
  quiet sample in the last half \<open>r2\<close> stays \<open>buf.length - 1\<close>, which \<open>slice\<close> takes as
  exclusive, so the last sample is cut. Four samples of \<open>255\<close> pass the default gate and
  are trimmed to three.
\<close>

theorem last_sample_cut:
  "\<not> js_lt (db_level [255, 255, 255, 255]) (Fin 30)
   \<and> scan_start [255, 255, 255, 255] 0 = 0
   \<and> scan_end [255, 255, 255, 255] 1 = 3
   \<and> trimmed [255, 255, 255, 255] = [255, 255, 255]"
  by (simp add: all_loud_gate trimmed_def js_slice_def rel_index_def val_def)


section \<open>Rounding to a double\<close>

lemma floor_log2_eq:
  assumes "2 powr of_int b \<le> x" and "x < 2 powr (of_int b + 1)"
  shows "\<lfloor>log 2 x\<rfloor> = b"
proof -
  have "0 < (2::real) powr of_int b" by simp
  with assms(1) have pos: "0 < x" by linarith
  have "of_int b \<le> log 2 x"
    using assms(1) pos by (simp add: le_log_iff)
  moreover have "log 2 x < of_int b + 1"
    using assms(2) pos by (simp add: log_less_iff)
  ultimately show ?thesis by (intro floor_unique) simp_all
qed

lemma binade_bounds:
  assumes "0 < x"
  shows "2 powr of_int \<lfloor>log 2 x\<rfloor> \<le> x" and "x < 2 powr (of_int \<lfloor>log 2 x\<rfloor> + 1)"
proof -
  have "of_int \<lfloor>log 2 x\<rfloor> \<le> log 2 x" by (rule of_int_floor_le)
  then show "2 powr of_int \<lfloor>log 2 x\<rfloor> \<le> x"
    using assms by (subst (asm) le_log_iff) simp_all
  have "log 2 x < of_int \<lfloor>log 2 x\<rfloor> + 1" by linarith
  then show "x < 2 powr (of_int \<lfloor>log 2 x\<rfloor> + 1)"
    using assms by (subst (asm) log_less_iff) simp_all
qed

lemma nearest_even_error: "\<bar>of_int (nearest_even q) - q\<bar> \<le> 1 / 2"
proof -
  have "of_int \<lfloor>q\<rfloor> \<le> q" "q < of_int \<lfloor>q\<rfloor> + 1" by linarith+
  then show ?thesis
    unfolding nearest_even_def Let_def by (auto split: if_splits)
qed

lemma nearest_even_near:
  assumes "\<bar>q - of_int k\<bar> < 1 / 2"
  shows "nearest_even q = k"
proof -
  have "\<bar>of_int (nearest_even q) - q\<bar> \<le> 1 / 2" by (rule nearest_even_error)
  with assms have "\<bar>real_of_int (nearest_even q) - of_int k\<bar> < 1" by linarith
  then have "\<bar>real_of_int (nearest_even q - k)\<bar> < 1" by simp
  then have "\<bar>nearest_even q - k\<bar> < 1" by linarith
  then show ?thesis by simp
qed


lemma quantum_pos: "0 < quantum x"
  by (simp add: quantum_def)

lemma quantum_eq:
  assumes "2 powr of_int b \<le> \<bar>x\<bar>" and "\<bar>x\<bar> < 2 powr (of_int b + 1)"
  shows "quantum x = 2 powr (of_int b - 52)"
  using floor_log2_eq [OF assms] by (simp add: quantum_def)

lemma quantum_le:
  assumes "x \<noteq> 0"
  shows "quantum x \<le> \<bar>x\<bar> / 2 ^ 52"
proof -
  have "2 powr of_int \<lfloor>log 2 \<bar>x\<bar>\<rfloor> \<le> \<bar>x\<bar>"
    using assms by (intro binade_bounds) simp
  moreover have "quantum x = 2 powr of_int \<lfloor>log 2 \<bar>x\<bar>\<rfloor> / 2 ^ 52"
    by (simp add: quantum_def powr_diff)
  ultimately show ?thesis by (simp add: divide_right_mono)
qed

lemma round_double_error: "\<bar>round_double x - x\<bar> \<le> quantum x / 2"
proof (cases "x = 0")
  case True
  then show ?thesis using quantum_pos [of x] by (simp add: round_double_def)
next
  case False
  define q where "q = quantum x"
  have q: "0 < q" by (simp add: q_def quantum_pos)
  have "\<bar>of_int (nearest_even (x / q)) - x / q\<bar> \<le> 1 / 2" by (rule nearest_even_error)
  then have "\<bar>of_int (nearest_even (x / q)) - x / q\<bar> * q \<le> 1 / 2 * q"
    using q by (intro mult_right_mono) simp_all
  moreover have "\<bar>of_int (nearest_even (x / q)) - x / q\<bar> * q = \<bar>of_int (nearest_even (x / q)) * q - x\<bar>"
  proof -
    have "\<bar>of_int (nearest_even (x / q)) - x / q\<bar> * q = \<bar>(of_int (nearest_even (x / q)) - x / q) * q\<bar>"
      using q by (simp add: abs_mult)
    also have "(of_int (nearest_even (x / q)) - x / q) * q = of_int (nearest_even (x / q)) * q - x"
      using q by (simp add: left_diff_distrib)
    finally show ?thesis .
  qed
  ultimately show ?thesis
    using False by (simp add: round_double_def q_def)
qed

lemma round_double_relative: "\<bar>round_double x - x\<bar> \<le> \<bar>x\<bar> / 2 ^ 53"
proof (cases "x = 0")
  case True
  then show ?thesis by (simp add: round_double_def)
next
  case False
  have "\<bar>round_double x - x\<bar> \<le> quantum x / 2" by (rule round_double_error)
  also have "\<dots> \<le> (\<bar>x\<bar> / 2 ^ 52) / 2"
    using quantum_le [OF False] by simp
  finally show ?thesis by simp
qed

lemma round_double_at:
  assumes "2 powr of_int b \<le> \<bar>x\<bar>" and "\<bar>x\<bar> < 2 powr (of_int b + 1)"
    and "\<bar>x / 2 powr (of_int b - 52) - of_int k\<bar> < 1 / 2"
  shows "round_double x = of_int k * 2 powr (of_int b - 52)"
proof -
  have "x \<noteq> 0"
    using assms(1) powr_gt_zero [of 2 "of_int b"] by auto
  moreover have "quantum x = 2 powr (of_int b - 52)"
    using assms(1,2) by (rule quantum_eq)
  moreover from assms(3) have "nearest_even (x / 2 powr (of_int b - 52)) = k"
    by (rule nearest_even_near)
  ultimately show ?thesis by (simp add: round_double_def)
qed


lemma nearest_even_nonneg:
  assumes "0 \<le> q"
  shows "0 \<le> nearest_even q"
proof -
  have "\<bar>of_int (nearest_even q) - q\<bar> \<le> 1 / 2" by (rule nearest_even_error)
  with assms have "- 1 < real_of_int (nearest_even q)" by linarith
  then have "- 1 < nearest_even q" by linarith
  then show ?thesis by simp
qed

lemma round_double_nonneg:
  assumes "0 \<le> x"
  shows "0 \<le> round_double x"
proof (cases "x = 0")
  case True
  then show ?thesis by (simp add: round_double_def)
next
  case False
  have "0 \<le> x / quantum x"
    using assms quantum_pos [of x] by simp
  then have "0 \<le> nearest_even (x / quantum x)" by (rule nearest_even_nonneg)
  then show ?thesis
    using False quantum_pos [of x] by (simp add: round_double_def)
qed

text \<open>Lower bounds survive rounding up to the relative error, here bounded by a thousandth.\<close>

lemma round_double_relative': "\<bar>round_double x - x\<bar> \<le> \<bar>x\<bar> / 1000"
proof -
  have "\<bar>round_double x - x\<bar> \<le> \<bar>x\<bar> / 2 ^ 53" by (rule round_double_relative)
  also have "\<dots> \<le> \<bar>x\<bar> / 1000"
    by (intro divide_left_mono) simp_all
  finally show ?thesis .
qed

lemma round_double_ge_pos:
  assumes "0 \<le> c" and "c \<le> x"
  shows "c * (999 / 1000) \<le> round_double x"
proof -
  have "\<bar>round_double x - x\<bar> \<le> \<bar>x\<bar> / 1000" by (rule round_double_relative')
  moreover have "\<bar>x\<bar> = x" using assms by simp
  ultimately have "x - x / 1000 \<le> round_double x" by linarith
  moreover have "c - c / 1000 \<le> x - x / 1000" using assms(2) by simp
  ultimately show ?thesis by simp
qed

lemma round_double_ge_neg:
  assumes "c \<le> 0" and "c \<le> x"
  shows "c * (1001 / 1000) \<le> round_double x"
proof (cases "0 \<le> x")
  case True
  then have "0 \<le> round_double x" by (rule round_double_nonneg)
  moreover have "c * (1001 / 1000) \<le> 0"
    using assms(1) by (intro mult_nonpos_nonneg) simp_all
  ultimately show ?thesis by linarith
next
  case False
  then have neg: "\<bar>x\<bar> = - x" by simp
  have "\<bar>round_double x - x\<bar> \<le> \<bar>x\<bar> / 1000" by (rule round_double_relative')
  then have "x + x / 1000 \<le> round_double x"
    unfolding neg by linarith
  moreover have "c + c / 1000 \<le> x + x / 1000" using assms(2) by simp
  ultimately show ?thesis by simp
qed

lemma log2_221_le: "log 2 (221 / 10) \<le> 9 / 2"
proof -
  have "2 * log 2 (221 / 10) = log 2 ((221 / 10) ^ 2)"
    using log_nat_power [of "221 / 10" 2 2] by (simp only: of_nat_numeral)
  also have "\<dots> \<le> log 2 (2 ^ 9)"
    by (subst log_le_cancel_iff) (simp_all add: power2_eq_square)
  also have "\<dots> = 9"
    by (subst log_pow_cancel) simp_all
  finally show ?thesis by simp
qed

text \<open>
  The semitone number of a frequency of at least 20 Hz is a finite double above 14.5,
  whatever the four roundings do.
\<close>

lemma semitone_finite:
  assumes "20 \<le> f"
  shows "\<exists>n. semitone (Fin f) = Fin n \<and> 29 / 2 \<le> n"
proof -
  define x where "x = round_double (f / 440)"
  define l where "l = round_double (log 2 x)"
  define r where "r = round_double (12 * l)"
  define n where "n = round_double (r + 69)"
  have "1 / 22 \<le> f / 440" using assms by simp
  then have "1 / 22 * (999 / 1000) \<le> x"
    unfolding x_def by (intro round_double_ge_pos) simp_all
  then have x: "10 / 221 \<le> x" by simp
  then have xpos: "0 < x" by linarith
  have "log 2 (10 / 221) \<le> log 2 x"
    using x by (subst log_le_cancel_iff) simp_all
  moreover have "log 2 (10 / 221) = - log 2 (221 / 10)"
    using log_divide [of 2 1 "221 / 10"] by (simp add: log_divide)
  ultimately have "- (9 / 2) \<le> log 2 x"
    using log2_221_le by linarith
  then have "- (9 / 2) * (1001 / 1000) \<le> l"
    unfolding l_def by (intro round_double_ge_neg) simp_all
  then have "- (541 / 10) \<le> 12 * l" by simp
  then have "- (541 / 10) * (1001 / 1000) \<le> r"
    unfolding r_def by (intro round_double_ge_neg) simp_all
  then have "(148 / 10 :: real) \<le> r + 69" by simp
  then have "148 / 10 * (999 / 1000) \<le> n"
    unfolding n_def by (intro round_double_ge_pos) simp_all
  then have n: "29 / 2 \<le> n" by simp
  have "semitone (Fin f) = Fin n"
    using xpos by (simp add: semitone_def js_log2_def n_def r_def l_def x_def [symmetric])
  with n show ?thesis by blast
qed


lemma ln2_ge: "17 / 25 \<le> ln (2::real)"
proof -
  have "(1 - (17 / 25) / real 64) ^ 64 \<le> exp (- (17 / 25 :: real))"
    by (rule exp_ge_one_minus_x_over_n_power_n) simp_all
  moreover have "(1 / 2 :: real) \<le> (1 - (17 / 25) / real 64) ^ 64"
    by (simp add: power_divide)
  ultimately have "1 / 2 \<le> exp (- (17 / 25 :: real))" by linarith
  then have "exp (17 / 25 :: real) \<le> 2"
    by (simp add: exp_minus field_simps)
  then have "ln (exp (17 / 25 :: real)) \<le> ln 2"
    by (subst ln_le_cancel_iff) simp_all
  then show ?thesis by simp
qed

lemma ln2_le: "ln (2::real) \<le> 3 / 4"
proof -
  have "(1 + (3 / 4) / real 16) ^ 16 \<le> exp (3 / 4 :: real)"
    by (rule exp_ge_one_plus_x_over_n_power_n) simp_all
  moreover have "(2::real) \<le> (1 + (3 / 4) / real 16) ^ 16"
    by (simp add: power_divide)
  ultimately have "2 \<le> exp (3 / 4 :: real)" by linarith
  then have "ln 2 \<le> ln (exp (3 / 4 :: real))"
    by (subst ln_le_cancel_iff) simp_all
  then show ?thesis by simp
qed

text \<open>Bounds on \<open>log 2 x\<close> around \<open>1 / 24\<close>, from the 24th power of \<open>x\<close>.\<close>

lemma log2_ge_near:
  assumes "0 < x" and "0 \<le> h" and "2 \<le> x ^ 24 * (1 + 24 * h * (17 / 25))"
  shows "1 / 24 - h \<le> log 2 x"
proof -
  have "(24 * h) * (17 / 25) \<le> (24 * h) * ln 2"
    using assms(2) ln2_ge by (intro mult_left_mono) simp_all
  then have "1 + 24 * h * (17 / 25) \<le> 1 + 24 * h * ln 2"
    by linarith
  also have "\<dots> \<le> exp (24 * h * ln 2)"
    by (rule exp_ge_add_one_self)
  also have "\<dots> = 2 powr (24 * h)"
    by (simp add: powr_def mult.commute)
  finally have "x ^ 24 * (1 + 24 * h * (17 / 25)) \<le> x ^ 24 * 2 powr (24 * h)"
    using assms(1) by (intro mult_left_mono) simp_all
  with assms(3) have "2 \<le> x ^ 24 * 2 powr (24 * h)" by linarith
  then have "2 * 2 powr (- (24 * h)) \<le> x ^ 24"
    by (simp add: powr_minus field_simps)
  moreover have "2 powr (1 - 24 * h) = 2 * 2 powr (- (24 * h))"
    using powr_add [of "2::real" 1 "- (24 * h)"] by simp
  moreover have "x powr 24 = x ^ 24"
    using assms(1) by (simp add: powr_numeral)
  ultimately have "2 powr (1 - 24 * h) \<le> x powr 24"
    by simp
  then have "1 - 24 * h \<le> log 2 (x powr 24)"
    using assms(1) by (subst le_log_iff) simp_all
  moreover have "log 2 (x powr 24) = 24 * log 2 x"
    using assms(1) log_nat_power [of x 2 24] by (simp add: powr_numeral)
  ultimately show ?thesis by linarith
qed

lemma log2_le_near:
  assumes "0 < x" and "0 \<le> h" and "x ^ 24 \<le> 2 * (1 - 24 * h * (3 / 4))"
  shows "log 2 x \<le> 1 / 24 - h"
proof -
  have "(24 * h) * ln 2 \<le> (24 * h) * (3 / 4)"
    using assms(2) ln2_le by (intro mult_left_mono) simp_all
  then have "1 - 24 * h * (3 / 4) \<le> 1 + - (24 * h * ln 2)"
    by linarith
  also have "\<dots> \<le> exp (- (24 * h * ln 2))"
    by (rule exp_ge_add_one_self)
  also have "\<dots> = 2 powr (- (24 * h))"
    by (simp add: powr_def mult.commute)
  finally have "2 * (1 - 24 * h * (3 / 4)) \<le> 2 * 2 powr (- (24 * h))"
    by simp
  with assms(3) have "x ^ 24 \<le> 2 * 2 powr (- (24 * h))" by linarith
  moreover have "2 powr (1 - 24 * h) = 2 * 2 powr (- (24 * h))"
    using powr_add [of "2::real" 1 "- (24 * h)"] by simp
  moreover have "x powr 24 = x ^ 24"
    using assms(1) by (simp add: powr_numeral)
  ultimately have "x powr 24 \<le> 2 powr (1 - 24 * h)"
    by simp
  then have "log 2 (x powr 24) \<le> 1 - 24 * h"
    using assms(1) by (subst log_le_iff) simp_all
  moreover have "log 2 (x powr 24) = 24 * log 2 x"
    using assms(1) log_nat_power [of x 2 24] by (simp add: powr_numeral)
  ultimately show ?thesis by linarith
qed


text \<open>
  Rounding a number whose significand has its leading bit at \<open>2 ^ 52\<close> after scaling
  by \<open>2 ^ s\<close>: the unit in the last place is \<open>1 / 2 ^ s\<close>.
\<close>

lemma powr_scale:
  "2 powr (52 - real s) = (2::real) ^ 52 / 2 ^ s"
  "2 powr (53 - real s) = (2::real) ^ 53 / 2 ^ s"
  "2 powr (- real s) = 1 / (2::real) ^ s"
proof -
  have s: "2 powr (real s) = (2::real) ^ s"
    by (simp add: powr_realpow)
  have "(2::real) powr (52 - real s) = 2 powr 52 / 2 powr (real s)" by (rule powr_diff)
  then show "2 powr (52 - real s) = (2::real) ^ 52 / 2 ^ s"
    by (simp add: s)
  have "(2::real) powr (53 - real s) = 2 powr 53 / 2 powr (real s)" by (rule powr_diff)
  then show "2 powr (53 - real s) = (2::real) ^ 53 / 2 ^ s"
    by (simp add: s)
  have "(2::real) powr (- real s) = 1 / 2 powr (real s)" by (simp add: powr_minus divide_inverse)
  then show "2 powr (- real s) = 1 / (2::real) ^ s"
    by (simp add: s)
qed

lemma round_double_frac:
  assumes "2 ^ 52 \<le> \<bar>x\<bar> * 2 ^ s" and "\<bar>x\<bar> * 2 ^ s < 2 ^ 53"
    and "\<bar>x * 2 ^ s - of_int k\<bar> < 1 / 2"
  shows "round_double x = of_int k / 2 ^ s"
proof -
  have b: "real_of_int (52 - int s) = 52 - real s" "52 - real s + 1 = 53 - real s"
    "52 - real s - 52 = - real s"
    by simp_all
  have "2 ^ 52 / 2 ^ s \<le> \<bar>x\<bar>"
    using assms(1) by (simp add: field_simps)
  then have 1: "2 powr of_int (52 - int s) \<le> \<bar>x\<bar>"
    by (simp only: b powr_scale)
  have "\<bar>x\<bar> < 2 ^ 53 / 2 ^ s"
    using assms(2) by (simp add: field_simps)
  then have 2: "\<bar>x\<bar> < 2 powr (of_int (52 - int s) + 1)"
    by (simp only: b powr_scale)
  have "x / (1 / 2 ^ s) = x * 2 ^ s" by simp
  with assms(3) have 3: "\<bar>x / 2 powr (of_int (52 - int s) - 52) - of_int k\<bar> < 1 / 2"
    by (simp only: b powr_scale)
  from round_double_at [OF 1 2 3] show ?thesis
    by (simp only: b powr_scale) simp
qed

lemma round_double_error_frac:
  assumes "\<bar>x\<bar> * 2 ^ s < 2 ^ 53"
  shows "\<bar>round_double x - x\<bar> \<le> 1 / 2 ^ (s + 1)"
proof (cases "x = 0")
  case True
  then show ?thesis by (simp add: round_double_def)
next
  case False
  then have pos: "0 < \<bar>x\<bar>" by simp
  have "\<bar>x\<bar> < 2 ^ 53 / 2 ^ s"
    using assms by (simp add: field_simps)
  then have "\<bar>x\<bar> < 2 powr (53 - real s)"
    by (simp only: powr_scale)
  then have "log 2 \<bar>x\<bar> < 53 - real s"
    using pos by (subst log_less_iff) simp_all
  then have "\<lfloor>log 2 \<bar>x\<bar>\<rfloor> < 53 - int s"
    by linarith
  then have "of_int \<lfloor>log 2 \<bar>x\<bar>\<rfloor> - 52 \<le> - real s"
    by linarith
  then have "quantum x \<le> 2 powr (- real s)"
    unfolding quantum_def by (subst powr_le_cancel_iff) simp_all
  also have "\<dots> = 1 / 2 ^ s"
    by (rule powr_scale)
  finally have "quantum x / 2 \<le> 1 / 2 ^ (s + 1)" by simp
  with round_double_error [of x] show ?thesis by linarith
qed

text \<open>
  The tie: when the rounded logarithm is within \<open>21 / 2 ^ 55\<close> of \<open>1 / 24\<close>, the two
  roundings that follow end exactly on \<open>69.5\<close>.
\<close>

lemma semitone_tie:
  assumes "\<bar>l - 1 / 24\<bar> \<le> 21 / 2 ^ 55"
  shows "round_double (round_double (12 * l) + 69) = 139 / 2"
proof -
  define r where "r = round_double (12 * l)"
  define e :: real where "e = 1 / 2 ^ 55"
  have e: "0 < e" "512 * e = 1 / 2 ^ 46" "2 * e = 1 / 2 ^ (53 + 1)" "e < 1 / 1000" "21 * e = 21 / 2 ^ 55"
    by (simp_all add: e_def)
  have l: "l - 1 / 24 \<le> 21 * e" "- (l - 1 / 24) \<le> 21 * e"
    using assms unfolding e(5) by (simp_all only: abs_le_iff)
  then have t: "1 / 2 - 252 * e \<le> 12 * l" "12 * l \<le> 1 / 2 + 252 * e"
    by linarith+
  then have "\<bar>12 * l\<bar> < 1" using e(1,4) by linarith
  then have "\<bar>12 * l\<bar> * 2 ^ 53 < 2 ^ 53" by simp
  then have "\<bar>r - 12 * l\<bar> \<le> 1 / 2 ^ (53 + 1)"
    unfolding r_def by (rule round_double_error_frac)
  then have "r - 12 * l \<le> 2 * e" "- (r - 12 * l) \<le> 2 * e"
    unfolding e(3) by (simp_all only: abs_le_iff)
  with t have r: "1 / 2 - 254 * e \<le> r" "r \<le> 1 / 2 + 254 * e"
    by linarith+
  have scale: "(r + 69) * 2 ^ 46 - 139 * 2 ^ 45 = (r - 1 / 2) / (512 * e)"
    unfolding e(2) by simp
  have "round_double (r + 69) = of_int (139 * 2 ^ 45) / 2 ^ 46"
  proof (rule round_double_frac)
    have "64 \<le> r + 69" "r + 69 < 128" using r e(1,4) by linarith+
    then show "2 ^ 52 \<le> \<bar>r + 69\<bar> * 2 ^ 46" "\<bar>r + 69\<bar> * 2 ^ 46 < 2 ^ 53"
      by simp_all
    have "\<bar>r - 1 / 2\<bar> \<le> 254 * e" using r by linarith
    then have "\<bar>r - 1 / 2\<bar> / (512 * e) \<le> 254 * e / (512 * e)"
      using e(1) by (intro divide_right_mono) simp_all
    also have "\<dots> < 1 / 2" using e(1) by simp
    finally have "\<bar>(r - 1 / 2) / (512 * e)\<bar> < 1 / 2"
      using e(1) by (simp add: abs_divide del: times_divide_eq_right)
    then show "\<bar>(r + 69) * 2 ^ 46 - of_int (139 * 2 ^ 45)\<bar> < 1 / 2"
      using scale by simp
  qed
  then show ?thesis by (simp add: r_def)
qed



lemma semitone_unfold:
  assumes "round_double (f / 440) = x" and "0 < x"
  shows "semitone (Fin f) = Fin (round_double (round_double (12 * round_double (log 2 x)) + 69))"
  using assms by (simp add: semitone_def js_log2_def)

lemma semitone_at_tie:
  assumes "round_double (f / 440) = x" and "0 < x"
    and "1 / 24 - 167 / 2 ^ 58 \<le> log 2 x" and "log 2 x \<le> 1 / 24 + 167 / 2 ^ 58"
  shows "semitone (Fin f) = Fin (139 / 2)"
proof -
  define l where "l = round_double (log 2 x)"
  define e :: real where "e = 1 / 2 ^ 58"
  have e: "0 < e" "e < 1 / 1000000" "167 * e = 167 / 2 ^ 58" "e = 1 / 2 ^ (57 + 1)"
    "168 * e = 21 / 2 ^ 55"
    by (simp_all add: e_def)
  have y: "1 / 24 - 167 * e \<le> log 2 x" "log 2 x \<le> 1 / 24 + 167 * e"
    using assms(3,4) unfolding e(3) by simp_all
  then have "\<bar>log 2 x\<bar> < 1 / 16" using e(1,2) by linarith
  then have "\<bar>log 2 x\<bar> * 2 ^ 57 < 2 ^ 53" by simp
  then have "\<bar>l - log 2 x\<bar> \<le> 1 / 2 ^ (57 + 1)"
    unfolding l_def by (rule round_double_error_frac)
  then have "l - log 2 x \<le> e" "- (l - log 2 x) \<le> e"
    unfolding e(4) [symmetric] by (simp_all only: abs_le_iff)
  with y have "\<bar>l - 1 / 24\<bar> \<le> 168 * e" by linarith
  then have "\<bar>l - 1 / 24\<bar> \<le> 21 / 2 ^ 55" unfolding e(5) .
  then have "round_double (round_double (12 * l) + 69) = 139 / 2"
    by (rule semitone_tie)
  with semitone_unfold [OF assms(1,2)] show ?thesis
    by (simp only: l_def)
qed

section \<open>Properties of the note mapper\<close>

lemma idx_of_nonneg:
  assumes "0 \<le> m"
  shows "idx_of (Fin m) = Fin (m mod 12)"
proof (cases "m = 0")
  case True
  then show ?thesis by (simp add: idx_of_def)
next
  case False
  with assms have "sgn m = 1" "\<bar>m\<bar> = m" by simp_all
  then show ?thesis by (simp add: idx_of_def)
qed

lemma octave_of_finite: "octave_of (Fin m) = Fin (m div 12 - 1)"
proof -
  have "\<lfloor>real_of_int m / 12\<rfloor> = m div 12"
    using floor_divide_of_int_eq [of m 12, where ?'a = real] by simp
  then show ?thesis
    by (simp add: octave_of_def js_sub_def)
qed

lemma index_names:
  assumes "0 \<le> m"
  shows "js_index noteNames (Fin (m mod 12)) = JString (noteNames ! nat (m mod 12))"
    and "js_index solfegeNames (Fin (m mod 12)) = JString (solfegeNames ! nat (m mod 12))"
  by (simp_all add: noteNames_def solfegeNames_def)

lemma getNoteInfo_guard:
  assumes "20 \<le> f"
  shows "\<not> (\<not> js_truthy (Fin f) \<or> js_lt (Fin f) (Fin 20))"
  using assms by (simp add: js_truthy_def)

text \<open>What \<open>getNoteInfo\<close> returns once the semitone number \<open>n\<close> is known.\<close>

lemma getNoteInfo_finite:
  assumes f: "20 \<le> f"
    and sem: "semitone (Fin f) = Fin n"
    and m: "m = \<lfloor>n + 1 / 2\<rfloor>"
    and m0: "0 \<le> m"
  shows "getNoteInfo (Fin f) =
           \<lparr>note = JString (noteNames ! nat (m mod 12) @ show_int (m div 12 - 1)),
            solfege = JString (solfegeNames ! nat (m mod 12)),
            cents = Fin ((n - of_int m) * 100)\<rparr>"
proof -
  have midi: "midi_of (Fin n) = Fin m"
    by (simp add: midi_of_def m)
  have dif: "diff_of (Fin n) (Fin m) = Fin (n - of_int m)"
    by (simp add: diff_of_def js_sub_def)
  have "getNoteInfo (Fin f) =
      \<lparr>note = js_plus (js_index noteNames (idx_of (Fin m))) (octave_of (Fin m)),
       solfege = js_index solfegeNames (idx_of (Fin m)),
       cents = js_mul (diff_of (Fin n) (Fin m)) (Fin 100)\<rparr>"
    unfolding getNoteInfo_def using getNoteInfo_guard [OF f]
    by (simp only: if_False Let_def sem midi)
  then show ?thesis
    by (simp only: idx_of_nonneg [OF m0] octave_of_finite index_names [OF m0] dif
          js_plus.simps js_to_string.simps js_mul.simps)
qed

lemma midi_ge_15:
  fixes n :: real
  assumes "29 / 2 \<le> n"
  shows "15 \<le> \<lfloor>n + 1 / 2\<rfloor>"
proof -
  from assms have "of_int 15 \<le> n + 1 / 2" by simp
  then show ?thesis by (subst le_floor_iff)
qed

lemma round_half_up_bounds:
  fixes n :: real
  shows "- 50 \<le> (n - of_int \<lfloor>n + 1 / 2\<rfloor>) * 100" and "(n - of_int \<lfloor>n + 1 / 2\<rfloor>) * 100 < 50"
proof -
  have "of_int \<lfloor>n + 1 / 2\<rfloor> \<le> n + 1 / 2" by (rule of_int_floor_le)
  then show "- 50 \<le> (n - of_int \<lfloor>n + 1 / 2\<rfloor>) * 100" by argo
  have "n + 1 / 2 < of_int \<lfloor>n + 1 / 2\<rfloor> + 1" by linarith
  then show "(n - of_int \<lfloor>n + 1 / 2\<rfloor>) * 100 < 50" by argo
qed

text \<open>
  C3, as the code has it. For a finite frequency \<open>f \<ge> 20\<close> the field \<open>cents\<close> is
  \<open>(n - round(n)) * 100\<close>, with \<open>n\<close> the double that the program computes for
  \<open>12 * log2(f / 440) + 69\<close> and \<open>Math.round\<close> sending a tie upwards; so it lies in the
  half-open range \<open>[-50, 50)\<close>: \<open>-50\<close> is returned when \<open>n\<close> is half way between two
  integers, and \<open>50\<close> never.
\<close>

theorem cents_range:
  assumes "20 \<le> f"
  shows "\<exists>n c. semitone (Fin f) = Fin n \<and> cents (getNoteInfo (Fin f)) = Fin c
           \<and> c = (n - of_int \<lfloor>n + 1 / 2\<rfloor>) * 100 \<and> - 50 \<le> c \<and> c < 50"
proof -
  from semitone_finite [OF assms] obtain n where n: "semitone (Fin f) = Fin n" "29 / 2 \<le> n"
    by (elim exE conjE)
  have "0 \<le> \<lfloor>n + 1 / 2\<rfloor>" using midi_ge_15 [OF n(2)] by simp
  from getNoteInfo_finite [OF assms n(1) refl this]
  have "cents (getNoteInfo (Fin f)) = Fin ((n - of_int \<lfloor>n + 1 / 2\<rfloor>) * 100)" by simp
  with n(1) round_half_up_bounds [of n] show ?thesis by blast
qed

theorem cents_range_witness:
  "(20::real) \<le> 440 \<and> (\<exists>n c. semitone (Fin 440) = Fin n \<and> cents (getNoteInfo (Fin 440)) = Fin c
      \<and> c = (n - of_int \<lfloor>n + 1 / 2\<rfloor>) * 100 \<and> - 50 \<le> c \<and> c < 50)"
  using cents_range [of 440] by simp

text \<open>The double \<open>452.89298412313644\<close>, a quarter tone above A4 up to rounding.\<close>

lemma quarter_tone_quotient:
  "round_double ((3983688817452479 / 8796093022208) / 440) = 4635565169399248 / 2 ^ 52"
proof -
  have "round_double ((3983688817452479 / 8796093022208) / 440)
      = of_int 4635565169399248 / 2 ^ 52"
    by (rule round_double_frac) simp_all
  then show ?thesis by simp
qed

lemma quarter_tone_log:
  "1 / 24 - 167 / 2 ^ 58 \<le> log 2 (4635565169399248 / 2 ^ 52)"
  "log 2 (4635565169399248 / 2 ^ 52) \<le> 1 / 24"
proof -
  show "1 / 24 - 167 / 2 ^ 58 \<le> log 2 (4635565169399248 / 2 ^ 52)"
    by (rule log2_ge_near) (simp_all add: power_divide)
  have "log 2 (4635565169399248 / 2 ^ 52) \<le> 1 / 24 - 0"
    by (rule log2_le_near) (simp_all add: power_divide)
  then show "log 2 (4635565169399248 / 2 ^ 52) \<le> 1 / 24" by simp
qed


lemma quarter_tone_semitone:
  "semitone (Fin (3983688817452479 / 8796093022208)) = Fin (139 / 2)"
proof (rule semitone_at_tie)
  show "round_double (3983688817452479 / 8796093022208 / 440) = 4635565169399248 / 2 ^ 52"
    by (rule quarter_tone_quotient)
  show "0 < (4635565169399248 / 2 ^ 52 :: real)" by simp
  show "1 / 24 - 167 / 2 ^ 58 \<le> log 2 (4635565169399248 / 2 ^ 52)"
    by (rule quarter_tone_log)
  show "log 2 (4635565169399248 / 2 ^ 52) \<le> 1 / 24 + 167 / 2 ^ 58"
    using quarter_tone_log(2) by simp
qed

text \<open>
  At this double the four roundings give \<open>n = 69.5\<close> exactly, which \<open>Math.round\<close> takes to
  \<open>70\<close>: the result is A#4 with \<open>cents = -50\<close>. By \<open>semitone_tie\<close> this does not depend on
  the last bits of \<open>Math.log2\<close>: any value within \<open>21 / 2 ^ 55\<close> of \<open>1 / 24\<close> gives the same
  \<open>n\<close>.
\<close>

theorem cents_minus_50_counterexample:
  "getNoteInfo (Fin (3983688817452479 / 8796093022208))
     = \<lparr>note = JString ''A#4'', solfege = JString ''Li'', cents = Fin (- 50)\<rparr>"
proof -
  have f: "(20::real) \<le> 3983688817452479 / 8796093022208" by simp
  have m: "(70::int) = \<lfloor>(139 / 2 :: real) + 1 / 2\<rfloor>" by simp
  from getNoteInfo_finite [OF f quarter_tone_semitone m] show ?thesis
    by (simp add: noteNames_def solfegeNames_def show_int_def)
qed


text \<open>
  C6, as the code has it. \<open>getNoteInfo\<close> returns the sentinel for \<open>NaN\<close>, for
  \<open>-Infinity\<close> and for every finite frequency below \<open>20\<close> (zero and the negative ones
  among them).
\<close>

theorem sentinel_inputs:
  assumes "freq = NaN \<or> freq = NInf \<or> (\<exists>f. freq = Fin f \<and> f < 20)"
  shows "getNoteInfo freq = \<lparr>note = JString ''--'', solfege = JString ''--'', cents = Fin 0\<rparr>"
  using assms by (auto simp: getNoteInfo_def js_truthy_def)

theorem sentinel_inputs_witness:
  "getNoteInfo NaN = \<lparr>note = JString ''--'', solfege = JString ''--'', cents = Fin 0\<rparr>
   \<and> getNoteInfo NInf = \<lparr>note = JString ''--'', solfege = JString ''--'', cents = Fin 0\<rparr>
   \<and> getNoteInfo (Fin 0) = \<lparr>note = JString ''--'', solfege = JString ''--'', cents = Fin 0\<rparr>
   \<and> getNoteInfo (Fin (- 5)) = \<lparr>note = JString ''--'', solfege = JString ''--'', cents = Fin 0\<rparr>
   \<and> getNoteInfo (Fin 19) = \<lparr>note = JString ''--'', solfege = JString ''--'', cents = Fin 0\<rparr>"
  using sentinel_inputs [of NaN] sentinel_inputs [of NInf] sentinel_inputs [of "Fin 0"]
    sentinel_inputs [of "Fin (- 5)"] sentinel_inputs [of "Fin 19"]
  by simp

text \<open>
  \<open>+Infinity\<close> passes the guard \<open>!freq || freq < 20\<close>; the result has the number \<open>NaN\<close>
  as its note, \<open>undefined\<close> as its solfege and \<open>NaN\<close> as its cents.
\<close>

theorem infinity_counterexample:
  "getNoteInfo PInf = \<lparr>note = JNumber NaN, solfege = JUndefined, cents = NaN\<rparr>"
  by (simp add: getNoteInfo_def js_truthy_def semitone_def js_log2_def midi_of_def diff_of_def
        idx_of_def octave_of_def js_sub_def inf_signed_def)

text \<open>
  C9. For every finite frequency \<open>f \<ge> 20\<close> the rounded semitone number \<open>midi\<close> is an
  integer not below \<open>15\<close>, \<open>midi % 12\<close> is an integer between \<open>0\<close> and \<open>11\<close>, which is
  within both tables, and \<open>getNoteInfo\<close> returns two strings and a finite number.
\<close>

theorem note_lookup_in_bounds:
  assumes "20 \<le> f"
  shows "\<exists>m i s t c. midi_of (semitone (Fin f)) = Fin m \<and> 15 \<le> m
           \<and> idx_of (Fin m) = Fin i \<and> 0 \<le> i \<and> i \<le> 11
           \<and> nat i < length noteNames \<and> nat i < length solfegeNames
           \<and> getNoteInfo (Fin f) = \<lparr>note = JString s, solfege = JString t, cents = Fin c\<rparr>"
proof -
  from semitone_finite [OF assms] obtain n where n: "semitone (Fin f) = Fin n" "29 / 2 \<le> n"
    by (elim exE conjE)
  define m where "m = \<lfloor>n + 1 / 2\<rfloor>"
  have m15: "15 \<le> m" using midi_ge_15 [OF n(2)] by (simp add: m_def)
  then have m0: "0 \<le> m" by simp
  have 1: "midi_of (semitone (Fin f)) = Fin m"
    by (simp add: n(1) midi_of_def m_def)
  have 2: "idx_of (Fin m) = Fin (m mod 12)"
    using m0 by (rule idx_of_nonneg)
  have 3: "0 \<le> m mod 12" "m mod 12 \<le> 11" by simp_all
  have 4: "nat (m mod 12) < length noteNames" "nat (m mod 12) < length solfegeNames"
    by (simp_all add: noteNames_def solfegeNames_def)
  from getNoteInfo_finite [OF assms n(1) m_def m0] 1 m15 2 3 4 show ?thesis
    by blast
qed

theorem note_lookup_in_bounds_witness:
  "(20::real) \<le> 20 \<and> (\<exists>m i s t c. midi_of (semitone (Fin 20)) = Fin m \<and> 15 \<le> m
           \<and> idx_of (Fin m) = Fin i \<and> 0 \<le> i \<and> i \<le> 11
           \<and> nat i < length noteNames \<and> nat i < length solfegeNames
           \<and> getNoteInfo (Fin 20) = \<lparr>note = JString s, solfege = JString t, cents = Fin c\<rparr>)"
  using note_lookup_in_bounds [of 20] by simp
















end
